theory Spec2Isabelle
  imports Main "HOL-Library.AList"
begin

section \<open>Text primitives of the generator and of the generated resolver\<close>

text \<open>
  Text is a list of characters; a character is a code point below 256.
  Python's \<^verbatim>\<open>s.split('.')\<close> and Swift's \<^verbatim>\<open>components(separatedBy: ".")\<close> both
  split at every separator and always return at least one (possibly empty)
  piece; Swift's \<^verbatim>\<open>joined(separator: ".")\<close> puts the pieces together again.
  \<^verbatim>\<open>startswith\<close> is Python's prefix test.
\<close>

fun split_on :: "char \<Rightarrow> string \<Rightarrow> string list" where
  "split_on sep [] = [[]]"
| "split_on sep (c # cs) =
     (if c = sep then [] # split_on sep cs
      else (let r = split_on sep cs in (c # hd r) # tl r))"

fun joined :: "string list \<Rightarrow> string" where
  "joined [] = []"
| "joined [x] = x"
| "joined (x # y # ys) = x @ ''.'' @ joined (y # ys)"

definition startswith :: "string \<Rightarrow> string \<Rightarrow> bool" where
  "startswith s prefix = (take (length prefix) s = prefix)"

text \<open>
  \<^verbatim>\<open>str.isspace\<close> on code points below 256: TAB..CR, FS..US, space, NEL and
  the no-break space. \<^verbatim>\<open>line.split(maxsplit=1)\<close> drops leading whitespace and
  returns no piece at all for a blank line; otherwise its first piece is the
  run of characters up to the next whitespace.
\<close>

definition isspace :: "char \<Rightarrow> bool" where
  "isspace c = (let n = (of_char c :: nat) in
     (9 \<le> n \<and> n \<le> 13) \<or> (28 \<le> n \<and> n \<le> 32) \<or> n = 133 \<or> n = 160)"

definition first_token :: "string \<Rightarrow> string option" where
  "first_token line =
     (let s = dropWhile isspace line in
      if s = [] then None else Some (takeWhile (\<lambda>c. \<not> isspace c) s))"

text \<open>
  \<^verbatim>\<open>str.lower\<close> on code points below 256: the ASCII capitals and the Latin-1
  capitals (C0..DE without the multiplication sign D7) move up by 32.
\<close>

definition lower_char :: "char \<Rightarrow> char" where
  "lower_char c = (let n = (of_char c :: nat) in
     if (65 \<le> n \<and> n \<le> 90) \<or> (192 \<le> n \<and> n \<le> 222 \<and> n \<noteq> 215)
     then char_of (n + 32) else c)"

definition lower :: "string \<Rightarrow> string" where
  "lower s = map lower_char s"

definition strip_dots :: "string \<Rightarrow> string" where
  "strip_dots s =
     rev (dropWhile (\<lambda>c. c = CHR ''.'') (rev (dropWhile (\<lambda>c. c = CHR ''.'') s)))"

section \<open>The rule source parser: \<^verbatim>\<open>get_public_suffixes\<close>\<close>

text \<open>
  The file is read line by line; the model takes the list of lines. Each line
  contributes at most one rule, appended to the positive or to the negative
  list: \<^verbatim>\<open>l.append(line.strip('.').lower().split('.'))\<close>.
\<close>

definition rule_labels :: "string \<Rightarrow> string list" where
  "rule_labels tok = split_on CHR ''.'' (lower (strip_dots tok))"

fun get_public_suffixes_loop ::
  "string list \<Rightarrow> string list list \<times> string list list \<Rightarrow> string list list \<times> string list list"
where
  "get_public_suffixes_loop [] (pos, neg) = (pos, neg)"
| "get_public_suffixes_loop (line # lines) (pos, neg) =
     (case first_token line of
        None \<Rightarrow> get_public_suffixes_loop lines (pos, neg)
      | Some tok \<Rightarrow>
          if tok = [] \<or> startswith tok ''//'' then get_public_suffixes_loop lines (pos, neg)
          else if startswith tok ''!''
          then get_public_suffixes_loop lines (pos, neg @ [rule_labels (drop 1 tok)])
          else get_public_suffixes_loop lines (pos @ [rule_labels tok], neg))"

definition get_public_suffixes :: "string list \<Rightarrow> string list list \<times> string list list" where
  "get_public_suffixes psl_lines = get_public_suffixes_loop psl_lines ([], [])"

section \<open>The suffix trie builder: \<^verbatim>\<open>rules_to_tree\<close> and \<^verbatim>\<open>filter_top_rules\<close>\<close>

text \<open>
  A tree value of the generator is either \<^verbatim>\<open>True\<close> or an ordered dictionary
  from keys to tree values; \<^verbatim>\<open>make_swift_dict\<close> writes \<^verbatim>\<open>True\<close> as
  \<^verbatim>\<open>Rule.accept_this\<close> and a dictionary as \<^verbatim>\<open>Rule.subrule([...])\<close> with the same
  keys, so one datatype serves the generator and the generated program. A
  dictionary is an association list in insertion order.
\<close>

datatype Rule = Rule_accept_this | Rule_subrule "(string \<times> Rule) list"

type_synonym rule_dict = "(string \<times> Rule) list"

abbreviation accept_this :: string where
  "accept_this \<equiv> ''!''"

abbreviation wildcard :: string where
  "wildcard \<equiv> ''*''"

definition accept_this_dict :: Rule where
  "accept_this_dict = Rule_subrule [(accept_this, Rule_accept_this)]"

text \<open>
  Python raises when \<^verbatim>\<open>setdefault\<close> or item assignment is applied to
  \<^verbatim>\<open>True\<close>, which happens when a rule walks through a key \<^verbatim>\<open>'!'\<close> that an
  earlier rule has set to \<^verbatim>\<open>True\<close>.
\<close>

datatype py_error = AttributeError | TypeError

text \<open>
  One pass of the inner loop of \<^verbatim>\<open>rules_to_tree\<close> for the labels still to be
  consumed (already reversed), starting at dictionary \<open>d\<close>:
  \<^verbatim>\<open>rule_tree = rule_tree.setdefault(label, OrderedDict())\<close> for each label,
  then \<^verbatim>\<open>rule_tree['!'] = True\<close>. The updated dictionary is returned in place
  of the mutation.
\<close>

fun insert_labels :: "string list \<Rightarrow> rule_dict \<Rightarrow> py_error + rule_dict" where
  "insert_labels [] d = Inr (AList.update accept_this Rule_accept_this d)"
| "insert_labels (label # labels) d =
     (case map_of d label of
        None \<Rightarrow>
          (case insert_labels labels [] of
             Inl e \<Rightarrow> Inl e
           | Inr c \<Rightarrow> Inr (d @ [(label, Rule_subrule c)]))
      | Some Rule_accept_this \<Rightarrow>
          Inl (if labels = [] then TypeError else AttributeError)
      | Some (Rule_subrule child) \<Rightarrow>
          (case insert_labels labels child of
             Inl e \<Rightarrow> Inl e
           | Inr c \<Rightarrow> Inr (AList.update label (Rule_subrule c) d)))"

fun rules_to_tree_loop :: "string list list \<Rightarrow> rule_dict \<Rightarrow> py_error + rule_dict" where
  "rules_to_tree_loop [] tree = Inr tree"
| "rules_to_tree_loop (rule # rules) tree =
     (case insert_labels (rev rule) tree of
        Inl e \<Rightarrow> Inl e
      | Inr tree' \<Rightarrow> rules_to_tree_loop rules tree')"

definition rules_to_tree :: "string list list \<Rightarrow> py_error + rule_dict" where
  "rules_to_tree rules = rules_to_tree_loop rules []"

definition filter_top_rules :: "rule_dict \<Rightarrow> rule_dict" where
  "filter_top_rules d = filter (\<lambda>(k, v). v \<noteq> accept_this_dict) d"

text \<open>
  The two constants \<^verbatim>\<open>p_suffixes\<close> and \<^verbatim>\<open>n_suffixes\<close> that \<^verbatim>\<open>main\<close> emits:
  each is \<^verbatim>\<open>Rule.subrule\<close> of the filtered tree of its rule list.
\<close>

definition main_tries :: "string list list \<Rightarrow> string list list \<Rightarrow> py_error + (Rule \<times> Rule)" where
  "main_tries positive_public_suffixes negative_public_suffixes =
     (case rules_to_tree positive_public_suffixes of
        Inl e \<Rightarrow> Inl e
      | Inr p \<Rightarrow>
          (case rules_to_tree negative_public_suffixes of
             Inl e \<Rightarrow> Inl e
           | Inr n \<Rightarrow>
               Inr (Rule_subrule (filter_top_rules p), Rule_subrule (filter_top_rules n))))"

section \<open>The generated resolver: \<^verbatim>\<open>get_domain\<close>\<close>

text \<open>
  The accessor \<^verbatim>\<open>Rule.subrule\<close> stops the program with \<^verbatim>\<open>assert(false)\<close> on
  \<^verbatim>\<open>Rule.accept_this\<close>; that outcome is the left injection below.
\<close>

datatype swift_trap = AssertFalse

fun subrule :: "Rule \<Rightarrow> swift_trap + rule_dict" where
  "subrule (Rule_subrule v) = Inr v"
| "subrule Rule_accept_this = Inl AssertFalse"

text \<open>
  The inner loop \<^verbatim>\<open>for rule in accepted_rules\<close>, the same text in both phases.
  Its state is \<open>(longest, new_accepted_rules)\<close>; \<open>this_longest\<close> is read only.
\<close>

fun scan_rules ::
  "string \<Rightarrow> string list \<Rightarrow> Rule list \<Rightarrow> string list \<times> Rule list
     \<Rightarrow> swift_trap + (string list \<times> Rule list)"
where
  "scan_rules label this_longest [] (longest, new_accepted_rules) =
     Inr (longest, new_accepted_rules)"
| "scan_rules label this_longest (rule # rules) (longest, new_accepted_rules) =
     (case subrule rule of
        Inl e \<Rightarrow> Inl e
      | Inr d \<Rightarrow>
          (let longest1 = (if map_of d accept_this \<noteq> None then this_longest else longest);
               new1 = (case map_of d wildcard of
                         Some wildcard_rule \<Rightarrow> new_accepted_rules @ [wildcard_rule]
                       | None \<Rightarrow> new_accepted_rules);
               new2 = (case map_of d label of
                         Some label_rule \<Rightarrow> new1 @ [label_rule]
                       | None \<Rightarrow> new1)
           in scan_rules label this_longest rules (longest1, new2)))"

text \<open>
  Phase 1, the loop over the negative rules. The state is
  \<open>(longest, this_longest, accepted_rules)\<close>. The result \<open>None\<close> is the
  \<^verbatim>\<open>return nil\<close> on an empty label; \<open>Some longest\<close> is the value of
  \<open>longest\<close> when the loop has run through every label.
\<close>

fun negative_loop ::
  "string list \<Rightarrow> string list \<times> string list \<times> Rule list
     \<Rightarrow> swift_trap + string list option"
where
  "negative_loop [] (longest, this_longest, accepted_rules) = Inr (Some longest)"
| "negative_loop (label # labels) (longest, this_longest, accepted_rules) =
     (if length label = 0 then Inr None
      else (case scan_rules label this_longest accepted_rules (longest, []) of
              Inl e \<Rightarrow> Inl e
            | Inr (longest', new_accepted_rules) \<Rightarrow>
                negative_loop labels (longest', this_longest @ [label], new_accepted_rules)))"

text \<open>
  Phase 2, the loop over the positive rules: \<open>this_longest\<close> gets the label
  before the inner loop runs. The result is \<open>(longest, accepted_rules)\<close> after
  the last label.
\<close>

fun positive_loop ::
  "string list \<Rightarrow> string list \<times> string list \<times> Rule list
     \<Rightarrow> swift_trap + (string list \<times> Rule list)"
where
  "positive_loop [] (longest, this_longest, accepted_rules) = Inr (longest, accepted_rules)"
| "positive_loop (label # labels) (longest, this_longest, accepted_rules) =
     (case scan_rules label (this_longest @ [label]) accepted_rules (longest, []) of
        Inl e \<Rightarrow> Inl e
      | Inr (longest', new_accepted_rules) \<Rightarrow>
          positive_loop labels (longest', this_longest @ [label], new_accepted_rules))"

text \<open>
  The last loop over \<open>accepted_rules\<close>: \<open>True\<close> when it executes
  \<^verbatim>\<open>return nil\<close> (the hostname is a public suffix), \<open>False\<close> when it ends.
\<close>

fun is_tld :: "Rule list \<Rightarrow> swift_trap + bool" where
  "is_tld [] = Inr False"
| "is_tld (rule # rules) =
     (case subrule rule of
        Inl e \<Rightarrow> Inl e
      | Inr d \<Rightarrow> if map_of d accept_this \<noteq> None then Inr True else is_tld rules)"

text \<open>
  \<^verbatim>\<open>get_domain\<close>, with the two generated constants as parameters. The result
  is the trap, or the optional string the Swift function returns.
\<close>

definition get_domain :: "Rule \<Rightarrow> Rule \<Rightarrow> string \<Rightarrow> swift_trap + string option" where
  "get_domain p_suffixes n_suffixes hostname =
     (let labels = rev (split_on CHR ''.'' hostname) in
      case negative_loop labels ([], [], [n_suffixes]) of
        Inl e \<Rightarrow> Inl e
      | Inr None \<Rightarrow> Inr None
      | Inr (Some nlongest) \<Rightarrow>
          if length nlongest \<noteq> 0 then Inr (Some (joined (rev nlongest)))
          else
            (case positive_loop labels ([], [], [p_suffixes]) of
               Inl e \<Rightarrow> Inl e
             | Inr (longest, accepted_rules) \<Rightarrow>
                 (case is_tld accepted_rules of
                    Inl e \<Rightarrow> Inl e
                  | Inr True \<Rightarrow> Inr None
                  | Inr False \<Rightarrow>
                      if length longest \<noteq> 0 then Inr (Some (joined (rev longest)))
                      else if length labels < 2 then Inr None
                      else Inr (Some (labels ! 1 @ ''.'' @ labels ! 0)))))"

text \<open>
  The whole pipeline on a rule-list text and a hostname: parse, build, resolve.
\<close>

definition resolve_with :: "string list \<Rightarrow> string \<Rightarrow> py_error + (swift_trap + string option)" where
  "resolve_with psl_lines hostname =
     (case get_public_suffixes psl_lines of
        (pos, neg) \<Rightarrow>
          (case main_tries pos neg of
             Inl e \<Rightarrow> Inl e
           | Inr (p, n) \<Rightarrow> Inr (get_domain p n hostname)))"

section \<open>Notions used to state the properties\<close>

text \<open>
  A node is terminal when its dictionary has the key \<^verbatim>\<open>"!"\<close>: this is the test
  \<^verbatim>\<open>rule.subrule[accept_this] != nil\<close>. The children of a node for a label are
  what one pass of the inner loop appends for that node: the wildcard child,
  then the child under the label. \<open>advance\<close> is the next matched-so-far list
  and \<open>walk\<close> the matched-so-far list after a sequence of labels.
\<close>

definition terminal :: "Rule \<Rightarrow> bool" where
  "terminal r = (case r of Rule_accept_this \<Rightarrow> False | Rule_subrule d \<Rightarrow> map_of d accept_this \<noteq> None)"

definition children :: "string \<Rightarrow> Rule \<Rightarrow> Rule list" where
  "children label r =
     (case r of
        Rule_accept_this \<Rightarrow> []
      | Rule_subrule d \<Rightarrow>
          (case map_of d wildcard of Some w \<Rightarrow> [w] | None \<Rightarrow> []) @
          (case map_of d label of Some c \<Rightarrow> [c] | None \<Rightarrow> []))"

definition advance :: "string \<Rightarrow> Rule list \<Rightarrow> Rule list" where
  "advance label rules = concat (map (children label) rules)"

fun walk :: "Rule list \<Rightarrow> string list \<Rightarrow> Rule list" where
  "walk rules [] = rules"
| "walk rules (label # labels) = walk (advance label rules) labels"

text \<open>
  A tree is well formed when \<^verbatim>\<open>Rule.accept_this\<close> occurs only under the key
  \<^verbatim>\<open>"!"\<close>; a list of nodes is good when each is a well-formed dictionary.
\<close>

fun wf_rule :: "Rule \<Rightarrow> bool" where
  "wf_rule Rule_accept_this = True"
| "wf_rule (Rule_subrule d) =
     (\<forall>kv \<in> set d. (fst kv \<noteq> accept_this \<longrightarrow> snd kv \<noteq> Rule_accept_this) \<and> wf_rule (snd kv))"

definition good :: "Rule list \<Rightarrow> bool" where
  "good rules = (\<forall>r \<in> set rules. r \<noteq> Rule_accept_this \<and> wf_rule r)"



text \<open>
  \<open>has_rule d labels\<close>: following the labels (top-level label first) from the
  dictionary \<open>d\<close> through dictionaries ends at a dictionary with the key
  \<^verbatim>\<open>"!"\<close>.
\<close>

fun has_rule :: "rule_dict \<Rightarrow> string list \<Rightarrow> bool" where
  "has_rule d [] = (map_of d accept_this \<noteq> None)"
| "has_rule d (label # labels) =
     (case map_of d label of
        Some (Rule_subrule child) \<Rightarrow> has_rule child labels
      | _ \<Rightarrow> False)"

section \<open>Basic facts about the inner loop and the two scans\<close>

lemma scan_rules_ok:
  "Rule_accept_this \<notin> set rules \<Longrightarrow>
   scan_rules label cur rules (lg, new) =
     Inr (if \<exists>r \<in> set rules. terminal r then cur else lg, new @ advance label rules)"
proof (induction rules arbitrary: lg new)
  case Nil
  then show ?case by (simp add: advance_def)
next
  case (Cons r rules)
  then obtain d where r: "r = Rule_subrule d" by (cases r) auto
  from Cons.prems have "Rule_accept_this \<notin> set rules" by simp
  note IH = Cons.IH[OF this]
  show ?case
    by (simp add: r IH Let_def terminal_def advance_def children_def split: option.splits)
qed

lemma scan_rules_longest:
  "scan_rules label cur rules (lg, new) = Inr (lg', new') \<Longrightarrow> lg' = lg \<or> lg' = cur"
proof (induction rules arbitrary: lg new)
  case Nil
  then show ?case by simp
next
  case (Cons r rules)
  show ?case
  proof (cases r)
    case Rule_accept_this
    with Cons.prems show ?thesis by simp
  next
    case (Rule_subrule d)
    with Cons.prems Cons.IH show ?thesis
      by (auto simp: Let_def split: if_splits)
  qed
qed

lemma wf_rule_child:
  "wf_rule (Rule_subrule d) \<Longrightarrow> map_of d k = Some c \<Longrightarrow>
   wf_rule c \<and> (k \<noteq> accept_this \<longrightarrow> c \<noteq> Rule_accept_this)"
proof -
  assume wf: "wf_rule (Rule_subrule d)" and look: "map_of d k = Some c"
  from look have "(k, c) \<in> set d" by (rule map_of_SomeD)
  with wf show ?thesis by fastforce
qed

lemma children_cases:
  "c \<in> set (children label (Rule_subrule d)) \<Longrightarrow>
   map_of d wildcard = Some c \<or> map_of d label = Some c"
  by (cases "map_of d wildcard"; cases "map_of d label") (auto simp: children_def)

lemma good_children:
  assumes "r \<noteq> Rule_accept_this" "wf_rule r" "label \<noteq> accept_this"
  shows "good (children label r)"
proof -
  from assms(1) obtain d where r: "r = Rule_subrule d" by (cases r) auto
  have "c \<noteq> Rule_accept_this \<and> wf_rule c" if "c \<in> set (children label r)" for c
  proof -
    from that r consider "map_of d wildcard = Some c" | "map_of d label = Some c"
      using children_cases by blast
    then show ?thesis
    proof cases
      case 1
      then show ?thesis using wf_rule_child[of d wildcard c] assms(2) r by simp
    next
      case 2
      then show ?thesis using wf_rule_child[of d label c] assms(2,3) r by simp
    qed
  qed
  then show ?thesis by (simp add: good_def)
qed

lemma good_advance: "good rules \<Longrightarrow> label \<noteq> accept_this \<Longrightarrow> good (advance label rules)"
proof -
  assume g: "good rules" and l: "label \<noteq> accept_this"
  have "good (children label r)" if "r \<in> set rules" for r
    using that g l good_children[of r label] by (simp add: good_def)
  then show ?thesis
    unfolding good_def advance_def by auto
qed

lemma good_walk: "good rules \<Longrightarrow> accept_this \<notin> set labels \<Longrightarrow> good (walk rules labels)"
  by (induction labels arbitrary: rules) (auto simp: good_advance)

lemma good_no_accept: "good rules \<Longrightarrow> Rule_accept_this \<notin> set rules"
  by (auto simp: good_def)

lemma negative_loop_step:
  "Rule_accept_this \<notin> set acc \<Longrightarrow> label \<noteq> [] \<Longrightarrow>
   negative_loop (label # labels) (lg, cur, acc) =
     negative_loop labels (if \<exists>r \<in> set acc. terminal r then cur else lg, cur @ [label], advance label acc)"
  by (simp add: scan_rules_ok)

lemma positive_loop_step:
  "Rule_accept_this \<notin> set acc \<Longrightarrow>
   positive_loop (label # labels) (lg, cur, acc) =
     positive_loop labels
       (if \<exists>r \<in> set acc. terminal r then cur @ [label] else lg, cur @ [label], advance label acc)"
  by (simp add: scan_rules_ok)

lemma is_tld_ok: "Rule_accept_this \<notin> set acc \<Longrightarrow> is_tld acc = Inr (\<exists>r \<in> set acc. terminal r)"
proof (induction acc)
  case Nil
  then show ?case by simp
next
  case (Cons r acc)
  then obtain d where r: "r = Rule_subrule d" by (cases r) auto
  with Cons show ?case by (auto simp: terminal_def)
qed


lemma set_update_cases:
  "kv \<in> set (AList.update k v d) \<Longrightarrow> kv = (k, v) \<or> kv \<in> set d"
  by (induction d) (auto split: if_splits)

lemma wf_rule_update:
  "wf_rule (Rule_subrule d) \<Longrightarrow> wf_rule v \<Longrightarrow> (k \<noteq> accept_this \<longrightarrow> v \<noteq> Rule_accept_this) \<Longrightarrow>
   wf_rule (Rule_subrule (AList.update k v d))"
  using set_update_cases[of _ k v d] by fastforce

lemma insert_labels_wf:
  "wf_rule (Rule_subrule d) \<Longrightarrow> insert_labels ls d = Inr d' \<Longrightarrow> wf_rule (Rule_subrule d')"
proof (induction ls arbitrary: d d')
  case Nil
  then show ?case using wf_rule_update[of d Rule_accept_this accept_this] by simp
next
  case (Cons l ls)
  show ?case
  proof (cases "map_of d l")
    case None
    with Cons.prems(2) obtain c where c: "insert_labels ls [] = Inr c"
      and d': "d' = d @ [(l, Rule_subrule c)]"
      by (auto split: sum.splits)
    have "wf_rule (Rule_subrule c)" using Cons.IH[OF _ c] by simp
    with Cons.prems(1) show ?thesis by (auto simp: d')
  next
    case (Some v)
    show ?thesis
    proof (cases v)
      case Rule_accept_this
      with Some Cons.prems(2) show ?thesis by simp
    next
      case (Rule_subrule child)
      with Some Cons.prems(2) obtain c where c: "insert_labels ls child = Inr c"
        and d': "d' = AList.update l (Rule_subrule c) d"
        by (auto split: sum.splits)
      have "wf_rule (Rule_subrule child)"
        using wf_rule_child[OF Cons.prems(1), of l v] Some Rule_subrule by simp
      then have "wf_rule (Rule_subrule c)" using Cons.IH[OF _ c] by simp
      then show ?thesis
        unfolding d' using wf_rule_update[OF Cons.prems(1), of "Rule_subrule c" l] by simp
    qed
  qed
qed

lemma insert_labels_distinct:
  "distinct (map fst d) \<Longrightarrow> insert_labels ls d = Inr d' \<Longrightarrow> distinct (map fst d')"
proof (cases ls)
  case Nil
  assume "distinct (map fst d)" "insert_labels ls d = Inr d'"
  with Nil show ?thesis by (auto simp: distinct_update)
next
  case (Cons l ls')
  assume dist: "distinct (map fst d)" and ins: "insert_labels ls d = Inr d'"
  show ?thesis
  proof (cases "map_of d l")
    case None
    then have "l \<notin> fst ` set d" by (simp add: map_of_eq_None_iff)
    moreover from None ins Cons obtain c where "d' = d @ [(l, Rule_subrule c)]"
      by (auto split: sum.splits)
    ultimately show ?thesis using dist by simp
  next
    case (Some v)
    with ins Cons obtain c where "d' = AList.update l c d"
      by (cases v) (auto split: sum.splits)
    then show ?thesis using dist by (simp add: distinct_update)
  qed
qed

lemma rules_to_tree_loop_inv:
  "wf_rule (Rule_subrule t) \<Longrightarrow> distinct (map fst t) \<Longrightarrow> rules_to_tree_loop rules t = Inr t' \<Longrightarrow>
   wf_rule (Rule_subrule t') \<and> distinct (map fst t')"
proof (induction rules arbitrary: t)
  case Nil
  then show ?case by simp
next
  case (Cons r rules)
  from Cons.prems(3) obtain t1 where t1: "insert_labels (rev r) t = Inr t1"
    and rest: "rules_to_tree_loop rules t1 = Inr t'"
    by (auto split: sum.splits)
  show ?case
    using Cons.IH[OF insert_labels_wf[OF Cons.prems(1) t1] insert_labels_distinct[OF Cons.prems(2) t1] rest] .
qed

lemma rules_to_tree_inv:
  "rules_to_tree rules = Inr t \<Longrightarrow> wf_rule (Rule_subrule t) \<and> distinct (map fst t)"
  using rules_to_tree_loop_inv[of "[]" rules t] by (simp add: rules_to_tree_def)

lemma filter_top_rules_inv:
  "wf_rule (Rule_subrule t) \<Longrightarrow> wf_rule (Rule_subrule (filter_top_rules t))"
  by (simp add: filter_top_rules_def)

lemma main_tries_good:
  "main_tries pos neg = Inr (p, n) \<Longrightarrow> good [p] \<and> good [n]"
proof -
  assume m: "main_tries pos neg = Inr (p, n)"
  then obtain tp tn where tp: "rules_to_tree pos = Inr tp" and tn: "rules_to_tree neg = Inr tn"
    and p: "p = Rule_subrule (filter_top_rules tp)" and n: "n = Rule_subrule (filter_top_rules tn)"
    by (auto simp: main_tries_def split: sum.splits)
  have "wf_rule p" "wf_rule n"
    unfolding p n
    using filter_top_rules_inv rules_to_tree_inv[OF tp] rules_to_tree_inv[OF tn] by blast+
  then show ?thesis
    by (simp add: good_def p n)
qed

lemma negative_loop_good:
  "good acc \<Longrightarrow> accept_this \<notin> set ls \<Longrightarrow> \<exists>r. negative_loop ls (lg, cur, acc) = Inr r"
proof (induction ls arbitrary: lg cur acc)
  case Nil
  then show ?case by simp
next
  case (Cons l ls)
  show ?case
  proof (cases "l = []")
    case True
    then show ?thesis by simp
  next
    case False
    from Cons.prems(2) have "l \<noteq> accept_this" by auto
    then have g: "good (advance l acc)" using Cons.prems(1) by (simp add: good_advance)
    show ?thesis
      using Cons.IH[OF g] Cons.prems(2)
      by (simp only: negative_loop_step[OF good_no_accept[OF Cons.prems(1)] False]) simp
  qed
qed

lemma positive_loop_good:
  "good acc \<Longrightarrow> accept_this \<notin> set ls \<Longrightarrow>
   \<exists>lg'. positive_loop ls (lg, cur, acc) = Inr (lg', walk acc ls)"
proof (induction ls arbitrary: lg cur acc)
  case Nil
  then show ?case by simp
next
  case (Cons l ls)
  from Cons.prems(2) have "l \<noteq> accept_this" by auto
  then have g: "good (advance l acc)" using Cons.prems(1) by (simp add: good_advance)
  show ?case
    using Cons.IH[OF g] Cons.prems(2)
    by (simp only: positive_loop_step[OF good_no_accept[OF Cons.prems(1)]]) simp
qed

lemma get_domain_no_trap:
  assumes "good [p]" "good [n]" "accept_this \<notin> set (split_on CHR ''.'' h)"
  shows "\<exists>r. get_domain p n h = Inr r"
proof -
  let ?ls = "rev (split_on CHR ''.'' h)"
  from assms(3) have nl: "accept_this \<notin> set ?ls" by simp
  obtain r where r: "negative_loop ?ls ([], [], [n]) = Inr r"
    using negative_loop_good[OF assms(2) nl] by blast
  obtain lg where lg: "positive_loop ?ls ([], [], [p]) = Inr (lg, walk [p] ?ls)"
    using positive_loop_good[OF assms(1) nl] by blast
  have t: "is_tld (walk [p] ?ls) = Inr (\<exists>r \<in> set (walk [p] ?ls). terminal r)"
    using is_tld_ok good_no_accept good_walk[OF assms(1) nl] by blast
  show ?thesis
    by (cases r) (simp_all add: get_domain_def r lg t Let_def split: bool.splits)
qed

section \<open>Evaluation of the pipeline on concrete inputs\<close>

lemmas eval_defs =
  resolve_with_def get_public_suffixes_def first_token_def isspace_def startswith_def
  rule_labels_def lower_def lower_char_def strip_dots_def main_tries_def rules_to_tree_def
  filter_top_rules_def accept_this_dict_def get_domain_def char_of_eq_iff

section \<open>Claims about the resolver on concrete rule sets\<close>

text \<open>
  C2, as stated: with the rules \<^verbatim>\<open>*.ck\<close> and \<^verbatim>\<open>!www.ck\<close> the hostname
  \<^verbatim>\<open>foo.www.ck\<close> resolves to \<^verbatim>\<open>foo.www.ck\<close>. The resolver does not return
  that string.
\<close>

theorem exception_returns_foo_www_ck_counterexample:
  "resolve_with [''*.ck'', ''!www.ck''] ''foo.www.ck'' \<noteq> Inr (Inr (Some ''foo.www.ck''))"
  by (simp add: eval_defs)

text \<open>
  C2, amended: with the rules \<^verbatim>\<open>*.ck\<close> and \<^verbatim>\<open>!www.ck\<close> (alone, or together with
  \<^verbatim>\<open>com\<close> and \<^verbatim>\<open>co.uk\<close>) the hostname \<^verbatim>\<open>foo.www.ck\<close> resolves to \<^verbatim>\<open>www.ck\<close>:
  the exception rule overrides the wildcard and the exception rule's own label
  sequence is the registrable domain.
\<close>

theorem exception_returns_www_ck:
  "resolve_with [''*.ck'', ''!www.ck''] ''foo.www.ck'' = Inr (Inr (Some ''www.ck'')) \<and>
   resolve_with [''com'', ''co.uk'', ''*.ck'', ''!www.ck''] ''foo.www.ck'' = Inr (Inr (Some ''www.ck''))"
  by (simp add: eval_defs)

section \<open>The accessor never meets \<^verbatim>\<open>Rule.accept_this\<close>\<close>

text \<open>
  C10: for the two tries that \<^verbatim>\<open>main\<close> emits from any rule lists, and for every
  hostname none of whose labels is the string \<^verbatim>\<open>"!"\<close>, the resolver returns a
  value: the \<^verbatim>\<open>assert(false)\<close> branch of \<^verbatim>\<open>Rule.subrule\<close> is not reached.
\<close>

theorem subrule_assert_unreachable:
  "main_tries pos neg = Inr (p, n) \<Longrightarrow> accept_this \<notin> set (split_on CHR ''.'' hostname) \<Longrightarrow>
   \<exists>r. get_domain p n hostname = Inr r"
  using get_domain_no_trap main_tries_good by blast

text \<open>
  C10 at the rules \<^verbatim>\<open>com\<close>, \<^verbatim>\<open>*.ck\<close>, \<^verbatim>\<open>!www.ck\<close> and the hostname \<^verbatim>\<open>foo.www.ck\<close>.
\<close>

theorem subrule_assert_unreachable_witness:
  "main_tries [[''com''], [wildcard, ''ck'']] [[''www'', ''ck'']] =
     Inr (Rule_subrule [(''ck'', Rule_subrule [(wildcard, accept_this_dict)])],
          Rule_subrule [(''ck'', Rule_subrule [(''www'', accept_this_dict)])]) \<and>
   accept_this \<notin> set (split_on CHR ''.'' ''foo.www.ck'') \<and>
   (\<exists>r. get_domain (Rule_subrule [(''ck'', Rule_subrule [(wildcard, accept_this_dict)])])
          (Rule_subrule [(''ck'', Rule_subrule [(''www'', accept_this_dict)])]) ''foo.www.ck'' = Inr r)"
proof -
  have m: "main_tries [[''com''], [wildcard, ''ck'']] [[''www'', ''ck'']] =
     Inr (Rule_subrule [(''ck'', Rule_subrule [(wildcard, accept_this_dict)])],
          Rule_subrule [(''ck'', Rule_subrule [(''www'', accept_this_dict)])])"
    by (simp add: main_tries_def rules_to_tree_def filter_top_rules_def accept_this_dict_def)
  have h: "accept_this \<notin> set (split_on CHR ''.'' ''foo.www.ck'')"
    by simp
  from subrule_assert_unreachable[OF m h] m h show ?thesis by blast
qed

section \<open>Shape of what the two scans and the resolver return\<close>

lemma scan_rules_longest_terminal:
  "scan_rules label cur rules (lg, new) = Inr (lg', new') \<Longrightarrow>
   lg' = lg \<or> (lg' = cur \<and> (\<exists>r \<in> set rules. terminal r))"
proof (induction rules arbitrary: lg new)
  case Nil
  then show ?case by simp
next
  case (Cons r rules)
  show ?case
  proof (cases r)
    case Rule_accept_this
    with Cons.prems show ?thesis by simp
  next
    case (Rule_subrule d)
    with Cons.prems have
      "scan_rules label cur rules
         (if map_of d accept_this \<noteq> None then cur else lg,
          (case map_of d label of
             Some label_rule \<Rightarrow>
               (case map_of d wildcard of Some w \<Rightarrow> new @ [w] | None \<Rightarrow> new) @ [label_rule]
           | None \<Rightarrow> (case map_of d wildcard of Some w \<Rightarrow> new @ [w] | None \<Rightarrow> new)))
       = Inr (lg', new')"
      by (simp add: Let_def)
    from Cons.IH[OF this] show ?thesis
      by (auto simp: Rule_subrule terminal_def split: if_splits)
  qed
qed

lemma negative_loop_result:
  "negative_loop ls (lg, cur, acc) = Inr (Some lg') \<Longrightarrow>
   [] \<notin> set ls \<and> (lg' = lg \<or> (\<exists>k < length ls. lg' = cur @ take k ls))"
proof (induction ls arbitrary: lg cur acc)
  case Nil
  then show ?case by simp
next
  case (Cons l ls)
  from Cons.prems have l: "l \<noteq> []" by (auto split: if_splits)
  with Cons.prems obtain lg1 new where
    s: "scan_rules l cur acc (lg, []) = Inr (lg1, new)" and
    n: "negative_loop ls (lg1, cur @ [l], new) = Inr (Some lg')"
    by (auto split: sum.splits)
  from scan_rules_longest[OF s] have lg1: "lg1 = lg \<or> lg1 = cur" .
  from Cons.IH[OF n] have e: "[] \<notin> set ls"
    and d: "lg' = lg1 \<or> (\<exists>k < length ls. lg' = (cur @ [l]) @ take k ls)" by auto
  from d show ?case
  proof
    assume "lg' = lg1"
    with lg1 have "lg' = lg \<or> lg' = cur @ take 0 (l # ls)" by simp
    then show ?thesis using e l by (metis length_greater_0_conv list.distinct(1) set_ConsD)
  next
    assume "\<exists>k < length ls. lg' = (cur @ [l]) @ take k ls"
    then obtain k where "k < length ls" "lg' = cur @ take (Suc k) (l # ls)" by auto
    then have "\<exists>k < length (l # ls). lg' = cur @ take k (l # ls)"
      by (metis Suc_less_eq length_Cons)
    then show ?thesis using e l by auto
  qed
qed

lemma positive_loop_result:
  "positive_loop ls (lg, cur, acc) = Inr (lg', acc') \<Longrightarrow>
   lg' = lg \<or>
   (\<exists>k < length ls. lg' = cur @ take (Suc k) ls \<and> (k = 0 \<longrightarrow> (\<exists>r \<in> set acc. terminal r)))"
proof (induction ls arbitrary: lg cur acc)
  case Nil
  then show ?case by simp
next
  case (Cons l ls)
  from Cons.prems obtain lg1 new where
    s: "scan_rules l (cur @ [l]) acc (lg, []) = Inr (lg1, new)" and
    n: "positive_loop ls (lg1, cur @ [l], new) = Inr (lg', acc')"
    by (auto split: sum.splits)
  from scan_rules_longest_terminal[OF s]
  have lg1: "lg1 = lg \<or> (lg1 = cur @ [l] \<and> (\<exists>r \<in> set acc. terminal r))" .
  from Cons.IH[OF n]
  have d: "lg' = lg1 \<or> (\<exists>k < length ls. lg' = (cur @ [l]) @ take (Suc k) ls)" by auto
  from d show ?case
  proof
    assume "lg' = lg1"
    with lg1 have "lg' = lg \<or> (lg' = cur @ take (Suc 0) (l # ls) \<and> (\<exists>r \<in> set acc. terminal r))"
      by simp
    then show ?thesis by auto
  next
    assume "\<exists>k < length ls. lg' = (cur @ [l]) @ take (Suc k) ls"
    then obtain k where "k < length ls" "lg' = cur @ take (Suc (Suc k)) (l # ls)" by auto
    then have "Suc k < length (l # ls) \<and> lg' = cur @ take (Suc (Suc k)) (l # ls) \<and> Suc k \<noteq> 0"
      by simp
    then show ?thesis by blast
  qed
qed

lemma split_on_nonempty: "split_on sep s \<noteq> []"
  by (induction s) (auto simp: Let_def)

lemma last_two:
  assumes "2 \<le> length xs"
  shows "rev xs ! 1 @ ''.'' @ rev xs ! 0 = joined (drop (length xs - 2) xs)"
proof -
  have "drop (length xs - 2) xs = rev (take 2 (rev xs))"
    using assms by (simp add: take_rev)
  moreover obtain a b ys where "rev xs = a # b # ys"
    using assms by (metis Suc_le_length_iff length_rev numeral_2_eq_2)
  ultimately show ?thesis by simp
qed


lemma get_domain_exception:
  "negative_loop (rev (split_on CHR ''.'' h)) ([], [], [n]) = Inr (Some nlg) \<Longrightarrow> nlg \<noteq> [] \<Longrightarrow>
   get_domain p n h = Inr (Some (joined (rev nlg)))"
  by (simp add: get_domain_def Let_def)

lemma get_domain_empty_label:
  "negative_loop (rev (split_on CHR ''.'' h)) ([], [], [n]) = Inr None \<Longrightarrow>
   get_domain p n h = Inr None"
  by (simp add: get_domain_def Let_def)

lemma get_domain_negative_trap:
  "negative_loop (rev (split_on CHR ''.'' h)) ([], [], [n]) = Inl e \<Longrightarrow>
   get_domain p n h = Inl e"
  by (simp add: get_domain_def Let_def)

lemma get_domain_positive_trap:
  "negative_loop (rev (split_on CHR ''.'' h)) ([], [], [n]) = Inr (Some []) \<Longrightarrow>
   positive_loop (rev (split_on CHR ''.'' h)) ([], [], [p]) = Inl e \<Longrightarrow>
   get_domain p n h = Inl e"
  by (simp add: get_domain_def Let_def)

lemma get_domain_tld_trap:
  "negative_loop (rev (split_on CHR ''.'' h)) ([], [], [n]) = Inr (Some []) \<Longrightarrow>
   positive_loop (rev (split_on CHR ''.'' h)) ([], [], [p]) = Inr (lg, acc) \<Longrightarrow>
   is_tld acc = Inl e \<Longrightarrow>
   get_domain p n h = Inl e"
  by (simp add: get_domain_def Let_def)

lemma get_domain_positive:
  "negative_loop (rev (split_on CHR ''.'' h)) ([], [], [n]) = Inr (Some []) \<Longrightarrow>
   positive_loop (rev (split_on CHR ''.'' h)) ([], [], [p]) = Inr (lg, acc) \<Longrightarrow>
   is_tld acc = Inr b \<Longrightarrow>
   get_domain p n h =
     (if b then Inr None
      else if lg \<noteq> [] then Inr (Some (joined (rev lg)))
      else if length (split_on CHR ''.'' h) < 2 then Inr None
      else Inr (Some (rev (split_on CHR ''.'' h) ! 1 @ ''.'' @ rev (split_on CHR ''.'' h) ! 0)))"
  by (cases b) (simp_all add: get_domain_def Let_def)

text \<open>
  C9, amended: whenever the resolver returns a string, every label of the
  hostname is non-empty and the string is the dot-joined form of a non-empty
  contiguous suffix of the hostname's labels, in their original order. The
  suffix has at least two labels when phase 1 recorded no exception match and
  the root of the positive trie carries no terminal marker; an exception match
  can be a single label.
\<close>

theorem get_domain_result_shape:
  assumes "get_domain p n hostname = Inr (Some s)"
  shows "\<exists>k. k < length (split_on CHR ''.'' hostname) \<and>
             s = joined (drop k (split_on CHR ''.'' hostname)) \<and>
             [] \<notin> set (split_on CHR ''.'' hostname) \<and>
             (negative_loop (rev (split_on CHR ''.'' hostname)) ([], [], [n]) = Inr (Some []) \<longrightarrow>
              \<not> terminal p \<longrightarrow> Suc k < length (split_on CHR ''.'' hostname))"
proof -
  define xs where "xs = split_on CHR ''.'' hostname"
  define ls where "ls = rev xs"
  have len: "0 < length xs" using split_on_nonempty by (simp add: xs_def)
  have lsl: "length ls = length xs" by (simp add: ls_def)
  note gd = assms[folded xs_def]
  have "\<exists>k. k < length xs \<and> s = joined (drop k xs) \<and> [] \<notin> set xs \<and>
         (negative_loop ls ([], [], [n]) = Inr (Some []) \<longrightarrow> \<not> terminal p \<longrightarrow> Suc k < length xs)"
  proof (cases "negative_loop ls ([], [], [n])")
    case (Inl e)
    then show ?thesis
      using get_domain_negative_trap[of hostname n e p] assms by (simp add: xs_def ls_def)
  next
    case (Inr r)
    show ?thesis
    proof (cases r)
      case None
      with Inr show ?thesis
        using get_domain_empty_label[of hostname n p] assms by (simp add: xs_def ls_def)
    next
      case (Some nlg)
      with Inr have nl: "negative_loop ls ([], [], [n]) = Inr (Some nlg)" by simp
      from negative_loop_result[OF nl] have ne: "[] \<notin> set xs"
        and nshape: "nlg = [] \<or> (\<exists>k < length xs. nlg = take k ls)"
        by (auto simp: ls_def)
      show ?thesis
      proof (cases "nlg = []")
        case False
        with nshape obtain k where k: "k < length xs" "nlg = take k ls" by auto
        with False have k0: "0 < k" by (cases k) auto
        have "s = joined (rev nlg)"
          using get_domain_exception[of hostname n nlg p] nl False assms
          by (simp add: xs_def ls_def)
        then have s: "s = joined (drop (length xs - k) xs)"
          using k by (simp add: take_rev ls_def)
        have lt: "length xs - k < length xs" using k k0 by simp
        have "negative_loop ls ([], [], [n]) \<noteq> Inr (Some [])" using nl False by simp
        with s lt ne show ?thesis by blast
      next
        case True
        with nl have nl0: "negative_loop ls ([], [], [n]) = Inr (Some [])" by simp
        show ?thesis
        proof (cases "positive_loop ls ([], [], [p])")
          case (Inl e)
          then show ?thesis
            using get_domain_positive_trap[of hostname n p e] nl0 assms
            by (simp add: xs_def ls_def)
        next
          case (Inr pr)
          obtain lg acc where pr: "pr = (lg, acc)" by (cases pr)
          with Inr have pl: "positive_loop ls ([], [], [p]) = Inr (lg, acc)" by simp
          from positive_loop_result[OF pl]
          have pshape: "lg = [] \<or>
              (\<exists>k < length xs. lg = take (Suc k) ls \<and> (k = 0 \<longrightarrow> terminal p))"
            by (simp add: lsl)
          show ?thesis
          proof (cases "is_tld acc")
            case (Inl e)
            then show ?thesis
              using get_domain_tld_trap[of hostname n p lg acc e] nl0 pl assms
              by (simp add: xs_def ls_def)
          next
            case (Inr b)
            note gp = get_domain_positive[of hostname n p lg acc b,
                folded xs_def, folded ls_def, OF nl0 pl Inr]
            from gp assms have nb: "\<not> b" by (auto split: if_splits)
            show ?thesis
            proof (cases "lg = []")
              case False
              with pshape obtain k where k: "k < length xs" "lg = take (Suc k) ls"
                "k = 0 \<longrightarrow> terminal p" by auto
              from gp assms nb False have "s = joined (rev lg)" by simp
              then have s: "s = joined (drop (length xs - Suc k) xs)"
                using k by (simp add: take_rev ls_def)
              have lt: "length xs - Suc k < length xs" using k by simp
              have two: "\<not> terminal p \<longrightarrow> Suc (length xs - Suc k) < length xs"
                using k by (cases k) auto
              from s lt two ne show ?thesis by blast
            next
              case lgE: True
              from gp assms nb lgE have two: "2 \<le> length xs"
                and sv: "s = rev xs ! 1 @ ''.'' @ rev xs ! 0"
                by (auto simp: ls_def split: if_splits)
              have s: "s = joined (drop (length xs - 2) xs)"
                using last_two[OF two] sv by simp
              have lt: "length xs - 2 < length xs" "Suc (length xs - 2) < length xs"
                using two by simp_all
              from s lt ne show ?thesis by blast
            qed
          qed
        qed
      qed
    qed
  qed
  then show ?thesis by (simp add: xs_def ls_def)
qed

text \<open>
  C9, as stated, requires at least two labels in every returned string. With
  the exception rules \<^verbatim>\<open>!foo\<close> and \<^verbatim>\<open>!bar.foo\<close> the hostname \<^verbatim>\<open>x.foo\<close> resolves to
  the single label \<^verbatim>\<open>foo\<close>.
\<close>

theorem single_label_result_counterexample:
  "resolve_with [''!foo'', ''!bar.foo''] ''x.foo'' = Inr (Inr (Some ''foo'')) \<and>
   split_on CHR ''.'' ''foo'' = [''foo'']"
  by (simp add: eval_defs)

text \<open>
  C9, amended, at the rule \<^verbatim>\<open>co.uk\<close> and the hostname \<^verbatim>\<open>www.example.co.uk\<close>.
\<close>

theorem get_domain_result_shape_witness:
  "get_domain (Rule_subrule [(''uk'', Rule_subrule [(''co'', accept_this_dict)])]) (Rule_subrule [])
     ''www.example.co.uk'' = Inr (Some ''example.co.uk'') \<and>
   negative_loop (rev (split_on CHR ''.'' ''www.example.co.uk'')) ([], [], [Rule_subrule []])
     = Inr (Some []) \<and>
   \<not> terminal (Rule_subrule [(''uk'', Rule_subrule [(''co'', accept_this_dict)])]) \<and>
   (\<exists>k. k < length (split_on CHR ''.'' ''www.example.co.uk'') \<and>
        ''example.co.uk'' = joined (drop k (split_on CHR ''.'' ''www.example.co.uk'')) \<and>
        [] \<notin> set (split_on CHR ''.'' ''www.example.co.uk'') \<and>
        Suc k < length (split_on CHR ''.'' ''www.example.co.uk''))"
proof -
  have g: "get_domain (Rule_subrule [(''uk'', Rule_subrule [(''co'', accept_this_dict)])])
      (Rule_subrule []) ''www.example.co.uk'' = Inr (Some ''example.co.uk'')"
    by (simp add: get_domain_def accept_this_dict_def)
  have n: "negative_loop (rev (split_on CHR ''.'' ''www.example.co.uk'')) ([], [], [Rule_subrule []])
     = Inr (Some [])"
    by simp
  have t: "\<not> terminal (Rule_subrule [(''uk'', Rule_subrule [(''co'', accept_this_dict)])])"
    by (simp add: terminal_def)
  from get_domain_result_shape[OF g] g n t show ?thesis by blast
qed

section \<open>Phase 1 keeps the last exception match\<close>

lemma negative_loop_no_match:
  "good acc \<Longrightarrow> accept_this \<notin> set ls \<Longrightarrow> [] \<notin> set ls \<Longrightarrow>
   (\<forall>j < length ls. \<not> (\<exists>r \<in> set (walk acc (take j ls)). terminal r)) \<Longrightarrow>
   negative_loop ls (lg, cur, acc) = Inr (Some lg)"
proof (induction ls arbitrary: lg cur acc)
  case Nil
  then show ?case by simp
next
  case (Cons l ls)
  from Cons.prems(2,3) have l: "l \<noteq> accept_this" "l \<noteq> []" by auto
  have g: "good (advance l acc)" using Cons.prems(1) l by (simp add: good_advance)
  from Cons.prems(4) have "\<not> (\<exists>r \<in> set (walk acc (take 0 (l # ls))). terminal r)"
    by (metis length_greater_0_conv list.distinct(1))
  then have t0: "\<not> (\<exists>r \<in> set acc. terminal r)" by simp
  have rest: "\<forall>j < length ls. \<not> (\<exists>r \<in> set (walk (advance l acc) (take j ls)). terminal r)"
  proof (intro allI impI)
    fix j assume "j < length ls"
    then have "Suc j < length (l # ls)" by simp
    from Cons.prems(4)[rule_format, OF this]
    show "\<not> (\<exists>r \<in> set (walk (advance l acc) (take j ls)). terminal r)" by simp
  qed
  have "negative_loop ls (lg, cur @ [l], advance l acc) = Inr (Some lg)"
    using Cons.IH[OF g _ _ rest] Cons.prems(2,3) by simp
  then show ?case
    using t0 by (simp only: negative_loop_step[OF good_no_accept[OF Cons.prems(1)] l(2)]) simp
qed

lemma negative_loop_last_match:
  "good acc \<Longrightarrow> accept_this \<notin> set ls \<Longrightarrow> [] \<notin> set ls \<Longrightarrow> k < length ls \<Longrightarrow>
   (\<exists>r \<in> set (walk acc (take k ls)). terminal r) \<Longrightarrow>
   (\<forall>j. k < j \<and> j < length ls \<longrightarrow> \<not> (\<exists>r \<in> set (walk acc (take j ls)). terminal r)) \<Longrightarrow>
   negative_loop ls (lg, cur, acc) = Inr (Some (cur @ take k ls))"
proof (induction ls arbitrary: lg cur acc k)
  case Nil
  then show ?case by simp
next
  case (Cons l ls)
  from Cons.prems(2,3) have l: "l \<noteq> accept_this" "l \<noteq> []" by auto
  have g: "good (advance l acc)" using Cons.prems(1) l by (simp add: good_advance)
  note step = negative_loop_step[OF good_no_accept[OF Cons.prems(1)] l(2)]
  show ?case
  proof (cases k)
    case 0
    with Cons.prems(5) have t0: "\<exists>r \<in> set acc. terminal r" by simp
    have rest: "\<forall>j < length ls. \<not> (\<exists>r \<in> set (walk (advance l acc) (take j ls)). terminal r)"
    proof (intro allI impI)
      fix j assume "j < length ls"
      then have "k < Suc j \<and> Suc j < length (l # ls)" using 0 by simp
      from Cons.prems(6)[rule_format, OF this]
      show "\<not> (\<exists>r \<in> set (walk (advance l acc) (take j ls)). terminal r)" by simp
    qed
    have "negative_loop ls (cur, cur @ [l], advance l acc) = Inr (Some cur)"
      using negative_loop_no_match[OF g _ _ rest] Cons.prems(2,3) by simp
    then show ?thesis
      using t0 0 by (simp only: step) simp
  next
    case (Suc k')
    from Cons.prems(4) Suc have k': "k' < length ls" by simp
    from Cons.prems(5) Suc have tk: "\<exists>r \<in> set (walk (advance l acc) (take k' ls)). terminal r"
      by simp
    have rest: "\<forall>j. k' < j \<and> j < length ls \<longrightarrow>
        \<not> (\<exists>r \<in> set (walk (advance l acc) (take j ls)). terminal r)"
    proof (intro allI impI)
      fix j assume "k' < j \<and> j < length ls"
      then have "k < Suc j \<and> Suc j < length (l # ls)" using Suc by simp
      from Cons.prems(6)[rule_format, OF this]
      show "\<not> (\<exists>r \<in> set (walk (advance l acc) (take j ls)). terminal r)" by simp
    qed
    have "negative_loop ls (if \<exists>r \<in> set acc. terminal r then cur else lg, cur @ [l], advance l acc)
          = Inr (Some ((cur @ [l]) @ take k' ls))"
      using Cons.IH[OF g _ _ k' tk rest] Cons.prems(2,3) by simp
    then show ?thesis
      using Suc by (simp only: step) simp
  qed
qed

text \<open>
  C3, amended: in phase 1, whenever some node of the matched-so-far list has a
  terminal-sentinel child, the accumulator built from strictly earlier labels
  is recorded as the exception match, replacing any earlier record, and the
  scan goes on through every label. So when several exception rules match the
  same hostname, the phase yields the last one recorded, which is the longest
  (farthest from the TLD): if position \<open>k\<close> is the last one at which the
  matched-so-far list has a terminal node, the phase ends with the first \<open>k\<close>
  labels. Stated for well-formed tries and hostnames with no empty label and
  no label \<^verbatim>\<open>"!"\<close>.
\<close>

theorem exception_scan_keeps_last_match:
  assumes "good [n]"
    and "accept_this \<notin> set labels" and "[] \<notin> set labels"
    and "k < length labels"
    and "\<exists>r \<in> set (walk [n] (take k labels)). terminal r"
    and "\<forall>j. k < j \<and> j < length labels \<longrightarrow> \<not> (\<exists>r \<in> set (walk [n] (take j labels)). terminal r)"
  shows "negative_loop labels ([], [], [n]) = Inr (Some (take k labels))"
  using negative_loop_last_match[OF assms, of "[]" "[]"] by simp

text \<open>
  C3, as stated, has the scan stop at the first match, so that the shortest
  exception rule wins. With the rules \<^verbatim>\<open>!b.c\<close> and \<^verbatim>\<open>!a.b.c\<close> the hostname
  \<^verbatim>\<open>x.a.b.c\<close> resolves to \<^verbatim>\<open>a.b.c\<close>, not \<^verbatim>\<open>b.c\<close>; and with \<^verbatim>\<open>!b.c\<close> alone the
  hostname \<^verbatim>\<open>.x.b.c\<close> is rejected for its empty label, which is scanned after
  the match.
\<close>

theorem shortest_exception_wins_counterexample:
  "resolve_with [''!b.c'', ''!a.b.c''] ''x.a.b.c'' = Inr (Inr (Some ''a.b.c'')) \<and>
   resolve_with [''!b.c'', ''!a.b.c''] ''x.a.b.c'' \<noteq> Inr (Inr (Some ''b.c'')) \<and>
   resolve_with [''!b.c''] ''.x.b.c'' = Inr (Inr None)"
  by (simp add: eval_defs)


text \<open>
  C3, amended, at the trie of \<^verbatim>\<open>!b.c\<close> and \<^verbatim>\<open>!a.b.c\<close> and the labels of
  \<^verbatim>\<open>y.x.a.b.c\<close>: positions 2 and 3 both match, and the phase yields the first
  three labels.
\<close>

theorem exception_scan_keeps_last_match_witness:
  "good [Rule_subrule [(''c'', Rule_subrule [(''b'',
      Rule_subrule [(accept_this, Rule_accept_this), (''a'', accept_this_dict)])])]] \<and>
   accept_this \<notin> set [''c'', ''b'', ''a'', ''x'', ''y''] \<and>
   [] \<notin> set [''c'', ''b'', ''a'', ''x'', ''y''] \<and>
   (3::nat) < length [''c'', ''b'', ''a'', ''x'', ''y''] \<and>
   (\<exists>r \<in> set (walk [Rule_subrule [(''c'', Rule_subrule [(''b'',
        Rule_subrule [(accept_this, Rule_accept_this), (''a'', accept_this_dict)])])]]
      (take 3 [''c'', ''b'', ''a'', ''x'', ''y''])). terminal r) \<and>
   (\<exists>r \<in> set (walk [Rule_subrule [(''c'', Rule_subrule [(''b'',
        Rule_subrule [(accept_this, Rule_accept_this), (''a'', accept_this_dict)])])]]
      (take 2 [''c'', ''b'', ''a'', ''x'', ''y''])). terminal r) \<and>
   negative_loop [''c'', ''b'', ''a'', ''x'', ''y''] ([], [],
     [Rule_subrule [(''c'', Rule_subrule [(''b'',
        Rule_subrule [(accept_this, Rule_accept_this), (''a'', accept_this_dict)])])]])
     = Inr (Some [''c'', ''b'', ''a''])"
proof -
  define n where "n = Rule_subrule [(''c'', Rule_subrule [(''b'',
      Rule_subrule [(accept_this, Rule_accept_this), (''a'', accept_this_dict)])])]"
  define labels where "labels = [''c'', ''b'', ''a'', ''x'', ''y'']"
  have g: "good [n]" by (simp add: n_def good_def accept_this_dict_def)
  have a: "accept_this \<notin> set labels" and e: "[] \<notin> set labels" by (simp_all add: labels_def)
  have k: "(3::nat) < length labels" by (simp add: labels_def)
  have t3: "\<exists>r \<in> set (walk [n] (take 3 labels)). terminal r"
    by (simp add: n_def labels_def advance_def children_def terminal_def accept_this_dict_def)
  have t2: "\<exists>r \<in> set (walk [n] (take 2 labels)). terminal r"
    by (simp add: n_def labels_def advance_def children_def terminal_def accept_this_dict_def)
  have later: "\<forall>j. 3 < j \<and> j < length labels \<longrightarrow> \<not> (\<exists>r \<in> set (walk [n] (take j labels)). terminal r)"
  proof (intro allI impI)
    fix j :: nat assume "3 < j \<and> j < length labels"
    then have "j = 4" by (simp add: labels_def)
    then show "\<not> (\<exists>r \<in> set (walk [n] (take j labels)). terminal r)"
      by (simp add: n_def labels_def advance_def children_def terminal_def accept_this_dict_def)
  qed
  have "negative_loop labels ([], [], [n]) = Inr (Some (take 3 labels))"
    using exception_scan_keeps_last_match[OF g a e k t3 later] .
  then have r: "negative_loop labels ([], [], [n]) = Inr (Some [''c'', ''b'', ''a''])"
    by (simp add: labels_def)
  show ?thesis
    using g a e k t3 t2 r unfolding n_def labels_def by blast
qed

section \<open>What the parser produces\<close>











section \<open>The pruning pass\<close>

lemma map_of_filter_top_rules:
  "distinct (map fst d) \<Longrightarrow>
   map_of (filter_top_rules d) k =
     (if map_of d k = Some accept_this_dict then None else map_of d k)"
proof (induction d)
  case Nil
  then show ?case by (simp add: filter_top_rules_def)
next
  case (Cons kv d)
  obtain a v where kv: "kv = (a, v)" by (cases kv)
  from Cons.prems kv have notin: "a \<notin> fst ` set d" and dist: "distinct (map fst d)" by auto
  have IH: "map_of (filter_top_rules d) k =
     (if map_of d k = Some accept_this_dict then None else map_of d k)"
    using Cons.IH[OF dist] .
  have sub: "fst ` set (filter_top_rules d) \<subseteq> fst ` set d"
    by (auto simp: filter_top_rules_def)
  show ?case
  proof (cases "v = accept_this_dict")
    case True
    then have f: "filter_top_rules ((a, accept_this_dict) # d) = filter_top_rules d"
      by (simp add: filter_top_rules_def)
    show ?thesis
    proof (cases "k = a")
      case True
      with notin sub have "map_of (filter_top_rules d) k = None"
        by (metis map_of_eq_None_iff subsetD)
      then show ?thesis using \<open>v = accept_this_dict\<close> True by (simp add: kv f)
    next
      case False
      then show ?thesis using IH \<open>v = accept_this_dict\<close> by (simp add: kv f)
    qed
  next
    case False
    then have f: "filter_top_rules ((a, v) # d) = (a, v) # filter_top_rules d"
      by (simp add: filter_top_rules_def)
    show ?thesis using IH False by (simp add: kv f)
  qed
qed




section \<open>Rules stay in the tree that \<^verbatim>\<open>rules_to_tree\<close> builds\<close>

lemma map_of_append_new:
  "map_of d l = None \<Longrightarrow> ([l \<mapsto> v] ++ map_of d) k = (if k = l then Some v else map_of d k)"
  by (auto simp: map_add_def split: option.splits)

lemma insert_labels_has_rule:
  "insert_labels ls d = Inr d' \<Longrightarrow> accept_this \<notin> set ls \<Longrightarrow> has_rule d' ls"
proof (induction ls arbitrary: d d')
  case Nil
  then show ?case by (auto simp: update_conv')
next
  case (Cons l ls)
  show ?case
  proof (cases "map_of d l")
    case None
    with Cons.prems(1) obtain c where c: "insert_labels ls [] = Inr c"
      and d': "d' = d @ [(l, Rule_subrule c)]"
      by (auto split: sum.splits)
    have "has_rule c ls" using Cons.IH[OF c] Cons.prems(2) by simp
    then show ?thesis by (simp add: d' map_of_append_new[OF None])
  next
    case (Some v)
    show ?thesis
    proof (cases v)
      case Rule_accept_this
      with Some Cons.prems(1) show ?thesis by simp
    next
      case (Rule_subrule child)
      with Some Cons.prems(1) obtain c where c: "insert_labels ls child = Inr c"
        and d': "d' = AList.update l (Rule_subrule c) d"
        by (auto split: sum.splits)
      have "has_rule c ls" using Cons.IH[OF c] Cons.prems(2) by simp
      then show ?thesis by (simp add: d' update_conv')
    qed
  qed
qed

lemma insert_labels_keeps_rule:
  "insert_labels ls d = Inr d' \<Longrightarrow> accept_this \<notin> set ls \<Longrightarrow> accept_this \<notin> set ks \<Longrightarrow>
   has_rule d ks \<Longrightarrow> has_rule d' ks"
proof (induction ls arbitrary: d d' ks)
  case Nil
  then have d': "d' = AList.update accept_this Rule_accept_this d" by simp
  show ?case
  proof (cases ks)
    case Nil
    then show ?thesis by (simp add: d' update_conv')
  next
    case (Cons k ks')
    with Nil.prems(3) have "k \<noteq> accept_this" by auto
    with Nil.prems(4) Cons show ?thesis by (simp add: d' update_conv')
  qed
next
  case (Cons l ls)
  from Cons.prems(2) have l: "l \<noteq> accept_this" and ls: "accept_this \<notin> set ls" by auto
  show ?case
  proof (cases "map_of d l")
    case None
    with Cons.prems(1) obtain c where d': "d' = d @ [(l, Rule_subrule c)]"
      by (auto split: sum.splits)
    show ?thesis
    proof (cases ks)
      case Nil
      with Cons.prems(4) l show ?thesis by (simp add: d' map_of_append_new[OF None])
    next
      case (Cons k ks')
      with Cons.prems(4) None have "k \<noteq> l" by (auto split: option.splits)
      with Cons.prems(4) Cons show ?thesis by (simp add: d' map_of_append_new[OF None])
    qed
  next
    case (Some v)
    show ?thesis
    proof (cases v)
      case Rule_accept_this
      with Some Cons.prems(1) show ?thesis by simp
    next
      case (Rule_subrule child)
      with Some Cons.prems(1) obtain c where c: "insert_labels ls child = Inr c"
        and d': "d' = AList.update l (Rule_subrule c) d"
        by (auto split: sum.splits)
      show ?thesis
      proof (cases ks)
        case Nil
        with Cons.prems(4) l show ?thesis by (simp add: d' update_conv')
      next
        case (Cons k ks')
        show ?thesis
        proof (cases "k = l")
          case True
          with Cons.prems(4) Cons Some Rule_subrule have "has_rule child ks'" by simp
          moreover from Cons.prems(3) Cons have "accept_this \<notin> set ks'" by simp
          ultimately have "has_rule c ks'" using Cons.IH[OF c ls] by blast
          then show ?thesis using True Cons by (simp add: d' update_conv')
        next
          case False
          with Cons.prems(4) Cons show ?thesis by (simp add: d' update_conv')
        qed
      qed
    qed
  qed
qed

lemma insert_labels_root_key:
  "insert_labels (l # ls) d = Inr d' \<Longrightarrow> l \<noteq> k \<Longrightarrow> map_of d' k = map_of d k"
proof (cases "map_of d l")
  case None
  assume "insert_labels (l # ls) d = Inr d'" "l \<noteq> k"
  with None show ?thesis
    by (auto simp: map_of_append_new[OF None] split: sum.splits)
next
  case (Some v)
  assume "insert_labels (l # ls) d = Inr d'" "l \<noteq> k"
  with Some show ?thesis
    by (cases v) (auto simp: update_conv' split: sum.splits)
qed

lemma rules_to_tree_loop_has_rule:
  "rules_to_tree_loop rules t = Inr t' \<Longrightarrow> \<forall>r \<in> set rules. r \<noteq> [] \<and> accept_this \<notin> set r \<Longrightarrow>
   (map_of t accept_this = None \<longrightarrow> map_of t' accept_this = None) \<and>
   (\<forall>ks. accept_this \<notin> set ks \<longrightarrow> has_rule t ks \<longrightarrow> has_rule t' ks) \<and>
   (\<forall>r \<in> set rules. has_rule t' (rev r))"
proof (induction rules arbitrary: t)
  case Nil
  then show ?case by simp
next
  case (Cons r rules)
  from Cons.prems(1) obtain t1 where t1: "insert_labels (rev r) t = Inr t1"
    and rest: "rules_to_tree_loop rules t1 = Inr t'"
    by (auto split: sum.splits)
  from Cons.prems(2) have r: "r \<noteq> []" "accept_this \<notin> set (rev r)"
    and rs: "\<forall>r \<in> set rules. r \<noteq> [] \<and> accept_this \<notin> set r" by auto
  note IH = Cons.IH[OF rest rs]
  from r obtain l ls where rev: "rev r = l # ls" "l \<noteq> accept_this"
    by (cases "rev r") auto
  have root: "map_of t1 accept_this = map_of t accept_this"
    using insert_labels_root_key[of l ls t t1 accept_this] t1 rev by simp
  have keep: "has_rule t1 ks" if "accept_this \<notin> set ks" "has_rule t ks" for ks
    using insert_labels_keeps_rule[OF t1 r(2) that] .
  have new: "has_rule t1 (rev r)" using insert_labels_has_rule[OF t1 r(2)] .
  have "has_rule t' (rev r)" using IH new r(2) by blast
  with IH root keep show ?case by auto
qed

lemma rules_to_tree_has_rule:
  assumes "rules_to_tree rules = Inr t" and "\<forall>r \<in> set rules. r \<noteq> [] \<and> accept_this \<notin> set r"
  shows "map_of t accept_this = None" and "r \<in> set rules \<Longrightarrow> has_rule t (rev r)"
  using rules_to_tree_loop_has_rule[of rules "[]" t] assms by (auto simp: rules_to_tree_def)

lemma insert_labels_succeeds:
  "wf_rule (Rule_subrule d) \<Longrightarrow> accept_this \<notin> set ls \<Longrightarrow> \<exists>d'. insert_labels ls d = Inr d'"
proof (induction ls arbitrary: d)
  case Nil
  then show ?case by simp
next
  case (Cons l ls)
  from Cons.prems(2) have l: "l \<noteq> accept_this" and ls: "accept_this \<notin> set ls" by auto
  show ?case
  proof (cases "map_of d l")
    case None
    obtain c where "insert_labels ls [] = Inr c" using Cons.IH[of "[]"] ls by auto
    with None show ?thesis by simp
  next
    case (Some v)
    from wf_rule_child[OF Cons.prems(1) Some] l have wv: "wf_rule v" "v \<noteq> Rule_accept_this"
      by auto
    then obtain child where v: "v = Rule_subrule child" by (cases v) auto
    obtain c where "insert_labels ls child = Inr c" using Cons.IH[of child] ls wv v by auto
    with Some v show ?thesis by simp
  qed
qed

lemma rules_to_tree_loop_succeeds:
  "wf_rule (Rule_subrule t) \<Longrightarrow> \<forall>r \<in> set rules. accept_this \<notin> set r \<Longrightarrow>
   \<exists>t'. rules_to_tree_loop rules t = Inr t'"
proof (induction rules arbitrary: t)
  case Nil
  then show ?case by simp
next
  case (Cons r rules)
  obtain t1 where t1: "insert_labels (rev r) t = Inr t1"
    using insert_labels_succeeds[OF Cons.prems(1), of "rev r"] Cons.prems(2) by auto
  have "wf_rule (Rule_subrule t1)" using insert_labels_wf[OF Cons.prems(1) t1] .
  then obtain t' where "rules_to_tree_loop rules t1 = Inr t'"
    using Cons.IH[of t1] Cons.prems(2) by auto
  with t1 show ?case by simp
qed

lemma rules_to_tree_succeeds:
  "\<forall>r \<in> set rules. accept_this \<notin> set r \<Longrightarrow> \<exists>t. rules_to_tree rules = Inr t"
  using rules_to_tree_loop_succeeds[of "[]" rules] by (simp add: rules_to_tree_def)

section \<open>Rules of the tree are found by the positive scan\<close>

lemma advance_append: "advance l (A @ B) = advance l A @ advance l B"
  by (simp add: advance_def)

lemma walk_append: "walk (A @ B) ls = walk A ls @ walk B ls"
  by (induction ls arbitrary: A B) (simp_all add: advance_append)

lemma walk_member: "c \<in> set acc \<Longrightarrow> set (walk [c] ls) \<subseteq> set (walk acc ls)"
proof -
  assume "c \<in> set acc"
  then obtain A B where "acc = A @ [c] @ B" by (metis append_Cons append_Nil split_list)
  then have "walk acc ls = walk A ls @ walk [c] ls @ walk B ls"
    by (simp only: walk_append)
  then show ?thesis by auto
qed

lemma has_rule_walk:
  "has_rule d ks \<Longrightarrow> \<exists>x \<in> set (walk [Rule_subrule d] ks). terminal x"
proof (induction ks arbitrary: d)
  case Nil
  then show ?case by (simp add: terminal_def)
next
  case (Cons k ks)
  then obtain c where c: "map_of d k = Some (Rule_subrule c)" and h: "has_rule c ks"
    by (auto split: option.splits Rule.splits)
  from c have "Rule_subrule c \<in> set (advance k [Rule_subrule d])"
    by (simp add: advance_def children_def split: option.splits)
  then have "set (walk [Rule_subrule c] ks) \<subseteq> set (walk (advance k [Rule_subrule d]) ks)"
    by (rule walk_member)
  with Cons.IH[OF h] show ?case by auto
qed

lemma has_rule_pruned_cases:
  assumes "distinct (map fst d)" and "has_rule d ks" and "ks \<noteq> []"
  shows "has_rule (filter_top_rules d) ks \<or> (\<exists>k. ks = [k] \<and> map_of d k = Some accept_this_dict)"
proof -
  from assms(3) obtain k ks' where ks: "ks = k # ks'" by (cases ks) auto
  with assms(2) obtain c where c: "map_of d k = Some (Rule_subrule c)" and h: "has_rule c ks'"
    by (auto split: option.splits Rule.splits)
  show ?thesis
  proof (cases "Rule_subrule c = accept_this_dict")
    case True
    then have "c = [(accept_this, Rule_accept_this)]" by (simp add: accept_this_dict_def)
    with h have "ks' = []" by (cases ks') (auto split: if_splits)
    with c True ks show ?thesis by simp
  next
    case False
    with c have "map_of (filter_top_rules d) k = Some (Rule_subrule c)"
      by (simp add: map_of_filter_top_rules[OF assms(1)])
    with h ks show ?thesis by simp
  qed
qed

lemma split_on_no_sep: "sep \<notin> set x \<Longrightarrow> split_on sep x = [x]"
  by (induction x) (auto simp: Let_def)

lemma split_on_append_sep:
  "sep \<notin> set x \<Longrightarrow> split_on sep (x @ sep # rest) = x # split_on sep rest"
  by (induction x) (auto simp: Let_def)

lemma split_on_joined:
  "xs \<noteq> [] \<Longrightarrow> \<forall>l \<in> set xs. CHR ''.'' \<notin> set l \<Longrightarrow> split_on CHR ''.'' (joined xs) = xs"
proof (induction xs rule: joined.induct)
  case 1
  then show ?case by simp
next
  case (2 x)
  then show ?case by (simp add: split_on_no_sep)
next
  case (3 x y ys)
  then show ?case by (simp add: split_on_append_sep)
qed

lemma positive_loop_last:
  "good acc \<Longrightarrow> accept_this \<notin> set ls \<Longrightarrow> l \<noteq> accept_this \<Longrightarrow>
   \<exists>x \<in> set (walk acc ls). terminal x \<Longrightarrow>
   positive_loop (ls @ [l]) (lg, cur, acc) = Inr (cur @ ls @ [l], walk acc (ls @ [l]))"
proof (induction ls arbitrary: lg cur acc)
  case Nil
  then show ?case
    by (simp add: positive_loop_step[OF good_no_accept[OF Nil.prems(1)]] del: positive_loop.simps(2))
next
  case (Cons k ks)
  from Cons.prems(2) have k: "k \<noteq> accept_this" and ks: "accept_this \<notin> set ks" by auto
  have g: "good (advance k acc)" using Cons.prems(1) k by (simp add: good_advance)
  have t: "\<exists>x \<in> set (walk (advance k acc) ks). terminal x" using Cons.prems(4) by simp
  show ?case
    using Cons.IH[OF g ks Cons.prems(3) t, of _ "cur @ [k]"]
    by (simp add: positive_loop_step[OF good_no_accept[OF Cons.prems(1)]] del: positive_loop.simps(2))
qed

lemma get_domain_public_suffix:
  assumes "good [p]" and "accept_this \<notin> set (split_on CHR ''.'' h)"
    and "negative_loop (rev (split_on CHR ''.'' h)) ([], [], [n]) = Inr (Some [])"
    and "\<exists>x \<in> set (walk [p] (rev (split_on CHR ''.'' h))). terminal x"
  shows "get_domain p n h = Inr None"
proof -
  let ?ls = "rev (split_on CHR ''.'' h)"
  from assms(2) have nl: "accept_this \<notin> set ?ls" by simp
  obtain lg where pl: "positive_loop ?ls ([], [], [p]) = Inr (lg, walk [p] ?ls)"
    using positive_loop_good[OF assms(1) nl] by blast
  have "is_tld (walk [p] ?ls) = Inr True"
    using is_tld_ok[OF good_no_accept[OF good_walk[OF assms(1) nl]]] assms(4) by simp
  from get_domain_positive[OF assms(3) pl this] show ?thesis by simp
qed

lemma get_domain_single_label:
  assumes "good [p]" and "\<not> terminal p" and "split_on CHR ''.'' h = [l]" and "l \<noteq> accept_this"
    and "negative_loop (rev (split_on CHR ''.'' h)) ([], [], [n]) = Inr (Some [])"
  shows "get_domain p n h = Inr None"
proof -
  have pl: "positive_loop (rev (split_on CHR ''.'' h)) ([], [], [p]) = Inr ([], advance l [p])"
    using assms(2)
    by (simp add: assms(3) positive_loop_step[OF good_no_accept[OF assms(1)]]
        del: positive_loop.simps(2))
  have g: "good (advance l [p])" using assms(1,4) by (simp add: good_advance)
  from get_domain_positive[OF assms(5) pl is_tld_ok[OF good_no_accept[OF g]]]
  show ?thesis by (simp add: assms(3))
qed

lemma get_domain_two_labels:
  assumes "good [p]" and "\<not> terminal p" and "split_on CHR ''.'' h = [label, k]"
    and "label \<noteq> accept_this" and "k \<noteq> accept_this"
    and "negative_loop (rev (split_on CHR ''.'' h)) ([], [], [n]) = Inr (Some [])"
    and "\<not> (\<exists>x \<in> set (walk [p] (rev (split_on CHR ''.'' h))). terminal x)"
  shows "get_domain p n h = Inr (Some (joined [label, k]))"
proof -
  define A where "A = advance k [p]"
  define B where "B = advance label A"
  have gA: "good A" using assms(1,5) by (simp add: A_def good_advance)
  have gB: "good B" using gA assms(4) by (simp add: B_def good_advance)
  have w: "walk [p] (rev (split_on CHR ''.'' h)) = B" by (simp add: assms(3) A_def B_def)
  have pl: "positive_loop (rev (split_on CHR ''.'' h)) ([], [], [p]) =
      Inr (if \<exists>x \<in> set A. terminal x then [k, label] else [], B)"
    using assms(2)
    by (simp add: assms(3) positive_loop_step[OF good_no_accept[OF assms(1)]]
        positive_loop_step[OF good_no_accept[OF gA], unfolded A_def] A_def B_def
        del: positive_loop.simps(2))
  have t: "is_tld B = Inr False"
    using is_tld_ok[OF good_no_accept[OF gB]] assms(7) w by simp
  from get_domain_positive[OF assms(6) pl t] show ?thesis by (simp add: assms(3))
qed

lemma get_domain_rule_plus_label:
  assumes "good [p]" and "split_on CHR ''.'' h = label # r" and "accept_this \<notin> set (label # r)"
    and "negative_loop (rev (split_on CHR ''.'' h)) ([], [], [n]) = Inr (Some [])"
    and "\<exists>x \<in> set (walk [p] (rev r)). terminal x"
    and "\<not> (\<exists>x \<in> set (walk [p] (rev (split_on CHR ''.'' h))). terminal x)"
  shows "get_domain p n h = Inr (Some (joined (label # r)))"
proof -
  from assms(3) have l: "label \<noteq> accept_this" and r: "accept_this \<notin> set (rev r)" by auto
  have pl: "positive_loop (rev (split_on CHR ''.'' h)) ([], [], [p]) =
      Inr (rev r @ [label], walk [p] (rev (split_on CHR ''.'' h)))"
    using positive_loop_last[OF assms(1) r l assms(5), of "[]" "[]"] by (simp add: assms(2))
  have g: "good (walk [p] (rev (split_on CHR ''.'' h)))"
    using good_walk[OF assms(1)] assms(2,3) by simp
  have t: "is_tld (walk [p] (rev (split_on CHR ''.'' h))) = Inr False"
    using is_tld_ok[OF good_no_accept[OF g]] assms(6) by simp
  from get_domain_positive[OF assms(4) pl t] show ?thesis by simp
qed

section \<open>Hostnames that are public suffixes, and hostnames one label longer than a rule\<close>

lemma main_tries_parts:
  assumes "main_tries pos neg = Inr (p, n)"
  obtains tp where "rules_to_tree pos = Inr tp" "p = Rule_subrule (filter_top_rules tp)"
    "distinct (map fst tp)" "good [p]"
proof -
  from assms obtain tp where tp: "rules_to_tree pos = Inr tp"
    and p: "p = Rule_subrule (filter_top_rules tp)"
    by (auto simp: main_tries_def split: sum.splits)
  from rules_to_tree_inv[OF tp] have "distinct (map fst tp)" by simp
  moreover from main_tries_good[OF assms] have "good [p]" by simp
  ultimately show ?thesis using that tp p by blast
qed

lemma pruned_root_not_terminal:
  "distinct (map fst tp) \<Longrightarrow> map_of tp accept_this = None \<Longrightarrow>
   \<not> terminal (Rule_subrule (filter_top_rules tp))"
  by (simp add: terminal_def map_of_filter_top_rules)

lemma positive_loop_final_set:
  assumes "good [p]" and "accept_this \<notin> set ls" and "positive_loop ls ([], [], [p]) = Inr (lg, acc)"
  shows "acc = walk [p] ls"
  using positive_loop_good[OF assms(1,2), of "[]" "[]"] assms(3) by auto




text \<open>
  C7, amended: for the tries that \<^verbatim>\<open>main\<close> emits from a rule set whose rules
  have at least one label, none of them \<^verbatim>\<open>"!"\<close>, for every positive rule of the
  set (with or without a wildcard label) and every label other than \<^verbatim>\<open>"!"\<close>,
  both free of dots: if phase 1 records no exception match for the hostname
  formed as the label followed by the rule's labels (which includes that none
  of its labels is empty), and the final matched-so-far list of the positive
  scan has no node with a terminal-sentinel child (the hostname is not itself
  matched in full by a longer or wildcard rule), then the resolver returns
  exactly that hostname.
\<close>

theorem rule_plus_label_resolves_to_itself:
  assumes "main_tries pos neg = Inr (p, n)"
    and "r \<in> set pos" and "\<forall>r' \<in> set pos. r' \<noteq> [] \<and> accept_this \<notin> set r'"
    and "label \<noteq> accept_this" and "\<forall>l \<in> set (label # r). CHR ''.'' \<notin> set l"
    and "negative_loop (rev (label # r)) ([], [], [n]) = Inr (Some [])"
    and "positive_loop (rev (label # r)) ([], [], [p]) = Inr (lg, acc)"
    and "\<not> (\<exists>x \<in> set acc. terminal x)"
  shows "get_domain p n (joined (label # r)) = Inr (Some (joined (label # r)))"
proof -
  from assms(1) obtain tp where tp: "rules_to_tree pos = Inr tp"
    and p: "p = Rule_subrule (filter_top_rules tp)"
    and dist: "distinct (map fst tp)" and g: "good [p]"
    by (rule main_tries_parts)
  from assms(2,3) have rne: "r \<noteq> []" and rbang: "accept_this \<notin> set r" by auto
  with assms(4) have bang: "accept_this \<notin> set (label # r)" by auto
  have sp: "split_on CHR ''.'' (joined (label # r)) = label # r"
    using split_on_joined[OF _ assms(5)] by simp
  have root: "map_of tp accept_this = None" and has: "has_rule tp (rev r)"
    using rules_to_tree_has_rule[OF tp assms(3)] assms(2) by auto
  have acc: "acc = walk [p] (rev (label # r))"
    using positive_loop_final_set[OF g _ assms(7)] bang by simp
  from has_rule_pruned_cases[OF dist has] rne
  consider (kept) "has_rule (filter_top_rules tp) (rev r)"
    | (pruned) k where "rev r = [k]" "map_of tp k = Some accept_this_dict"
    by auto
  then show ?thesis
  proof cases
    case kept
    then have "\<exists>x \<in> set (walk [p] (rev r)). terminal x"
      unfolding p by (rule has_rule_walk)
    then show ?thesis
      using get_domain_rule_plus_label[OF g sp bang, of n] assms(6,8) acc by (simp add: sp)
  next
    case pruned
    then have r: "r = [k]" by (metis rev_singleton_conv)
    with rbang have k: "k \<noteq> accept_this" by auto
    have nt: "\<not> terminal p" unfolding p using dist root by (rule pruned_root_not_terminal)
    show ?thesis
      using get_domain_two_labels[OF g nt, of "joined (label # r)" label k n]
        assms(4,6,8) k acc sp r by simp
  qed
qed

text \<open>
  C7, as stated: with the rules \<^verbatim>\<open>uk\<close> and \<^verbatim>\<open>co.uk\<close>, the rule \<^verbatim>\<open>uk\<close> has no
  wildcard label and \<^verbatim>\<open>co\<close> is a non-empty label, yet the hostname \<^verbatim>\<open>co.uk\<close>
  resolves to nil, not to \<^verbatim>\<open>co.uk\<close>.
\<close>

theorem rule_plus_label_counterexample:
  "get_public_suffixes [''uk'', ''co.uk''] = ([[''uk''], [''co'', ''uk'']], []) \<and>
   joined [''co'', ''uk''] = ''co.uk'' \<and>
   resolve_with [''uk'', ''co.uk''] ''co.uk'' = Inr (Inr None)"
  by (simp add: eval_defs)

text \<open>
  C7, amended, at the rules \<^verbatim>\<open>com\<close> and \<^verbatim>\<open>co.uk\<close>, the rule \<^verbatim>\<open>co.uk\<close> and the
  label \<^verbatim>\<open>example\<close>.
\<close>

theorem rule_plus_label_resolves_to_itself_witness:
  "main_tries [[''com''], [''co'', ''uk'']] [] =
     Inr (Rule_subrule [(''uk'', Rule_subrule [(''co'', accept_this_dict)])], Rule_subrule []) \<and>
   [''co'', ''uk''] \<in> set [[''com''], [''co'', ''uk'']] \<and>
   ''example'' \<noteq> accept_this \<and>
   negative_loop (rev [''example'', ''co'', ''uk'']) ([], [], [Rule_subrule []]) = Inr (Some []) \<and>
   positive_loop (rev [''example'', ''co'', ''uk'']) ([], [],
     [Rule_subrule [(''uk'', Rule_subrule [(''co'', accept_this_dict)])]])
     = Inr ([''uk'', ''co'', ''example''], []) \<and>
   get_domain (Rule_subrule [(''uk'', Rule_subrule [(''co'', accept_this_dict)])]) (Rule_subrule [])
     ''example.co.uk'' = Inr (Some ''example.co.uk'')"
proof -
  define p where "p = Rule_subrule [(''uk'', Rule_subrule [(''co'', accept_this_dict)])]"
  define n where "n = Rule_subrule []"
  have m: "main_tries [[''com''], [''co'', ''uk'']] [] = Inr (p, n)"
    by (simp add: p_def n_def main_tries_def rules_to_tree_def filter_top_rules_def accept_this_dict_def)
  have rin: "[''co'', ''uk''] \<in> set [[''com''], [''co'', ''uk'']]" by simp
  have rules: "\<forall>r' \<in> set [[''com''], [''co'', ''uk'']]. r' \<noteq> [] \<and> accept_this \<notin> set r'" by simp
  have lab: "''example'' \<noteq> accept_this" by simp
  have dots: "\<forall>l \<in> set [''example'', ''co'', ''uk'']. CHR ''.'' \<notin> set l" by simp
  have ng: "negative_loop (rev [''example'', ''co'', ''uk'']) ([], [], [n]) = Inr (Some [])"
    by (simp add: n_def)
  have ps: "positive_loop (rev [''example'', ''co'', ''uk'']) ([], [], [p])
      = Inr ([''uk'', ''co'', ''example''], [])"
    by (simp add: p_def accept_this_dict_def)
  have nt: "\<not> (\<exists>x \<in> set []. terminal x)" by simp
  from rule_plus_label_resolves_to_itself[OF m rin rules lab dots ng ps nt]
  have "get_domain p n ''example.co.uk'' = Inr (Some ''example.co.uk'')" by simp
  with m rin lab ng ps show ?thesis unfolding p_def n_def by blast
qed

section \<open>The failure value\<close>

lemma negative_loop_empty_label:
  "good acc \<Longrightarrow> accept_this \<notin> set ls \<Longrightarrow> [] \<in> set ls \<Longrightarrow>
   negative_loop ls (lg, cur, acc) = Inr None"
proof (induction ls arbitrary: lg cur acc)
  case Nil
  then show ?case by simp
next
  case (Cons l ls)
  show ?case
  proof (cases "l = []")
    case True
    then show ?thesis by simp
  next
    case False
    from Cons.prems(2) have "l \<noteq> accept_this" and ls: "accept_this \<notin> set ls" by auto
    then have g: "good (advance l acc)" using Cons.prems(1) by (simp add: good_advance)
    from Cons.prems(3) False have e: "[] \<in> set ls" by auto
    show ?thesis
      using Cons.IH[OF g ls e]
      by (simp add: negative_loop_step[OF good_no_accept[OF Cons.prems(1)] False]
          del: negative_loop.simps(2))
  qed
qed

lemma negative_loop_single:
  "good [n] \<Longrightarrow> l \<noteq> [] \<Longrightarrow> negative_loop [l] ([], [], [n]) = Inr (Some [])"
  by (simp add: negative_loop_step[OF good_no_accept] del: negative_loop.simps(2))

text \<open>
  C4, amended: the resolver returns one optional string, a registrable domain
  or nil. For the tries that \<^verbatim>\<open>main\<close> emits and every hostname with no label
  \<^verbatim>\<open>"!"\<close> it returns such a value and does not stop in the assertion. The three
  failure causes all give the same value nil: a hostname with an empty label;
  a hostname for which phase 1 records no match and the positive scan ends on
  a node with a terminal-sentinel child; and a hostname of fewer than two
  labels when the root of the positive trie has no terminal marker.
\<close>

theorem failures_are_nil:
  assumes "main_tries pos neg = Inr (p, n)" and "accept_this \<notin> set (split_on CHR ''.'' h)"
  shows "(get_domain p n h = Inr None \<or> (\<exists>s. get_domain p n h = Inr (Some s))) \<and>
         ([] \<in> set (split_on CHR ''.'' h) \<longrightarrow> get_domain p n h = Inr None) \<and>
         (negative_loop (rev (split_on CHR ''.'' h)) ([], [], [n]) = Inr (Some []) \<and>
          (\<exists>x \<in> set (walk [p] (rev (split_on CHR ''.'' h))). terminal x)
          \<longrightarrow> get_domain p n h = Inr None) \<and>
         (length (split_on CHR ''.'' h) < 2 \<and> \<not> terminal p \<longrightarrow> get_domain p n h = Inr None)"
proof (intro conjI impI)
  from main_tries_good[OF assms(1)] have gp: "good [p]" and gn: "good [n]" by auto
  from assms(2) have nl: "accept_this \<notin> set (rev (split_on CHR ''.'' h))" by simp
  obtain res where "get_domain p n h = Inr res"
    using get_domain_no_trap[OF gp gn assms(2)] by blast
  then show "get_domain p n h = Inr None \<or> (\<exists>s. get_domain p n h = Inr (Some s))"
    by (cases res) auto
  {
    assume "[] \<in> set (split_on CHR ''.'' h)"
    then have "negative_loop (rev (split_on CHR ''.'' h)) ([], [], [n]) = Inr None"
      using negative_loop_empty_label[OF gn nl] by simp
    then show "get_domain p n h = Inr None" by (rule get_domain_empty_label)
  }
  {
    assume "negative_loop (rev (split_on CHR ''.'' h)) ([], [], [n]) = Inr (Some []) \<and>
          (\<exists>x \<in> set (walk [p] (rev (split_on CHR ''.'' h))). terminal x)"
    then show "get_domain p n h = Inr None"
      using get_domain_public_suffix[OF gp assms(2)] by blast
  }
  {
    assume a: "length (split_on CHR ''.'' h) < 2 \<and> \<not> terminal p"
    then obtain l where l: "split_on CHR ''.'' h = [l]"
      using split_on_nonempty[of "CHR ''.''" h]
      by (cases "split_on CHR ''.'' h"; cases "tl (split_on CHR ''.'' h)") auto
    with assms(2) have lb: "l \<noteq> accept_this" by auto
    show "get_domain p n h = Inr None"
    proof (cases "l = []")
      case True
      then have "negative_loop (rev (split_on CHR ''.'' h)) ([], [], [n]) = Inr None"
        by (simp add: l)
      then show ?thesis by (rule get_domain_empty_label)
    next
      case False
      have "negative_loop (rev (split_on CHR ''.'' h)) ([], [], [n]) = Inr (Some [])"
        using negative_loop_single[OF gn False] by (simp add: l)
      then show ?thesis
        using get_domain_single_label[OF gp _ l lb] a by blast
    qed
  }
qed

text \<open>
  C4, amended, at the rules \<^verbatim>\<open>com\<close>, \<^verbatim>\<open>co.uk\<close> and the hostnames \<^verbatim>\<open>a..b\<close> (empty
  label), \<^verbatim>\<open>co.uk\<close> (public suffix) and \<^verbatim>\<open>localhost\<close> (single label, no rule).
\<close>

theorem failures_are_nil_witness:
  "main_tries [[''com''], [''co'', ''uk'']] [] =
     Inr (Rule_subrule [(''uk'', Rule_subrule [(''co'', accept_this_dict)])], Rule_subrule []) \<and>
   accept_this \<notin> set (split_on CHR ''.'' ''a..b'') \<and> [] \<in> set (split_on CHR ''.'' ''a..b'') \<and>
   get_domain (Rule_subrule [(''uk'', Rule_subrule [(''co'', accept_this_dict)])]) (Rule_subrule [])
     ''a..b'' = Inr None \<and>
   accept_this \<notin> set (split_on CHR ''.'' ''co.uk'') \<and>
   negative_loop (rev (split_on CHR ''.'' ''co.uk'')) ([], [], [Rule_subrule []]) = Inr (Some []) \<and>
   walk [Rule_subrule [(''uk'', Rule_subrule [(''co'', accept_this_dict)])]]
     (rev (split_on CHR ''.'' ''co.uk'')) = [accept_this_dict] \<and>
   terminal accept_this_dict \<and>
   get_domain (Rule_subrule [(''uk'', Rule_subrule [(''co'', accept_this_dict)])]) (Rule_subrule [])
     ''co.uk'' = Inr None \<and>
   accept_this \<notin> set (split_on CHR ''.'' ''localhost'') \<and>
   length (split_on CHR ''.'' ''localhost'') < 2 \<and>
   \<not> terminal (Rule_subrule [(''uk'', Rule_subrule [(''co'', accept_this_dict)])]) \<and>
   get_domain (Rule_subrule [(''uk'', Rule_subrule [(''co'', accept_this_dict)])]) (Rule_subrule [])
     ''localhost'' = Inr None"
proof -
  define p where "p = Rule_subrule [(''uk'', Rule_subrule [(''co'', accept_this_dict)])]"
  define n where "n = Rule_subrule []"
  have m: "main_tries [[''com''], [''co'', ''uk'']] [] = Inr (p, n)"
    by (simp add: p_def n_def main_tries_def rules_to_tree_def filter_top_rules_def accept_this_dict_def)
  have a1: "accept_this \<notin> set (split_on CHR ''.'' ''a..b'')"
    and e1: "[] \<in> set (split_on CHR ''.'' ''a..b'')" by simp_all
  have a2: "accept_this \<notin> set (split_on CHR ''.'' ''co.uk'')" by simp
  have n2: "negative_loop (rev (split_on CHR ''.'' ''co.uk'')) ([], [], [n]) = Inr (Some [])"
    by (simp add: n_def)
  have w2: "walk [p] (rev (split_on CHR ''.'' ''co.uk'')) = [accept_this_dict]"
    by (simp add: p_def advance_def children_def accept_this_dict_def)
  have t2: "terminal accept_this_dict" by (simp add: terminal_def accept_this_dict_def)
  have a3: "accept_this \<notin> set (split_on CHR ''.'' ''localhost'')" by simp
  have l3: "length (split_on CHR ''.'' ''localhost'') < 2" by simp
  have t3: "\<not> terminal p" by (simp add: p_def terminal_def)
  from failures_are_nil[OF m a1] e1 have r1: "get_domain p n ''a..b'' = Inr None" by blast
  from failures_are_nil[OF m a2] n2 w2 t2 have r2: "get_domain p n ''co.uk'' = Inr None" by simp
  from failures_are_nil[OF m a3] l3 t3 have r3: "get_domain p n ''localhost'' = Inr None" by blast
  from m a1 e1 r1 a2 n2 w2 t2 r2 a3 l3 t3 r3 show ?thesis unfolding p_def n_def by blast
qed

text \<open>
  C4, as stated, has three pairwise distinguishable failure results. With the
  rules \<^verbatim>\<open>com\<close>, \<^verbatim>\<open>co.uk\<close>, \<^verbatim>\<open>*.ck\<close>, \<^verbatim>\<open>!www.ck\<close> the hostname with an empty label,
  the hostname that is a public suffix and the single-label hostname with no
  rule all resolve to the same value.
\<close>

theorem failures_not_distinguishable_counterexample:
  "resolve_with [''com'', ''co.uk'', ''*.ck'', ''!www.ck''] ''a..b'' = Inr (Inr None) \<and>
   resolve_with [''com'', ''co.uk'', ''*.ck'', ''!www.ck''] ''co.uk'' = Inr (Inr None) \<and>
   resolve_with [''com'', ''co.uk'', ''*.ck'', ''!www.ck''] ''localhost'' = Inr (Inr None)"
  by (simp add: eval_defs)

section \<open>Pruning the positive trie does not change the resolver\<close>

lemma children_accept_this_dict:
  "l \<noteq> accept_this \<Longrightarrow> children l accept_this_dict = []"
  by (simp add: children_def accept_this_dict_def)

lemma advance_without_accept_this_dict:
  "l \<noteq> accept_this \<Longrightarrow> advance l (filter (\<lambda>v. v \<noteq> accept_this_dict) A) = advance l A"
  by (induction A) (auto simp: advance_def children_accept_this_dict)

lemma children_filter_top_rules:
  assumes "distinct (map fst d)"
  shows "children l (Rule_subrule (filter_top_rules d)) =
         filter (\<lambda>v. v \<noteq> accept_this_dict) (children l (Rule_subrule d))"
proof -
  note m = map_of_filter_top_rules[OF assms]
  show ?thesis
    by (cases "map_of d wildcard"; cases "map_of d l") (auto simp: children_def m)
qed

lemma positive_loop_longest_dependence:
  "good acc \<Longrightarrow> accept_this \<notin> set ls \<Longrightarrow>
   (\<forall>lg. positive_loop ls (lg, cur, acc) = Inr (lg, walk acc ls)) \<or>
   (\<exists>c. \<forall>lg. positive_loop ls (lg, cur, acc) = Inr (c, walk acc ls))"
proof (induction ls arbitrary: cur acc)
  case Nil
  then show ?case by simp
next
  case (Cons l ls)
  from Cons.prems(2) have l: "l \<noteq> accept_this" and ls: "accept_this \<notin> set ls" by auto
  have g: "good (advance l acc)" using Cons.prems(1) l by (simp add: good_advance)
  note step = positive_loop_step[OF good_no_accept[OF Cons.prems(1)], of l ls _ cur]
  note IH = Cons.IH[OF g ls, of "cur @ [l]"]
  show ?case
  proof (cases "\<exists>r \<in> set acc. terminal r")
    case True
    from IH have "\<exists>c. positive_loop ls (cur @ [l], cur @ [l], advance l acc)
        = Inr (c, walk (advance l acc) ls)" by auto
    then show ?thesis using True by (simp add: step del: positive_loop.simps(2))
  next
    case False
    then show ?thesis using IH by (simp add: step del: positive_loop.simps(2))
  qed
qed

lemma pruned_positive_part:
  assumes gp: "good [Rule_subrule tp]" and dist: "distinct (map fst tp)"
    and root: "map_of tp accept_this = None"
    and bang: "accept_this \<notin> set (split_on CHR ''.'' h)"
    and neg: "negative_loop (rev (split_on CHR ''.'' h)) ([], [], [n]) = Inr (Some [])"
  shows "get_domain (Rule_subrule (filter_top_rules tp)) n h = get_domain (Rule_subrule tp) n h"
proof -
  define p where "p = Rule_subrule tp"
  define q where "q = Rule_subrule (filter_top_rules tp)"
  define xs where "xs = split_on CHR ''.'' h"
  have gq: "good [q]"
    using gp filter_top_rules_inv[of tp] by (simp add: good_def q_def)
  have gp': "good [p]" using gp by (simp add: p_def)
  have ntp: "\<not> terminal p" using root by (simp add: p_def terminal_def)
  have ntq: "\<not> terminal q" unfolding q_def using dist root by (rule pruned_root_not_terminal)
  have xne: "xs \<noteq> []" unfolding xs_def by (rule split_on_nonempty)
  then obtain l0 rest where ls: "rev xs = l0 # rest" by (cases "rev xs") auto
  from bang have nb: "accept_this \<notin> set (rev xs)" by (simp add: xs_def)
  with ls have l0: "l0 \<noteq> accept_this" and rb: "accept_this \<notin> set rest" by auto
  define A where "A = advance l0 [p]"
  define A' where "A' = advance l0 [q]"
  have AA': "A' = filter (\<lambda>v. v \<noteq> accept_this_dict) A"
    by (simp add: A_def A'_def advance_def p_def q_def children_filter_top_rules[OF dist])
  have gA: "good A" using gp' l0 by (simp add: A_def good_advance)
  have gA': "good A'" using gq l0 by (simp add: A'_def good_advance)
  have sp: "positive_loop (rev xs) ([], [], [p]) = positive_loop rest ([], [l0], A)"
    using ntp by (simp add: ls A_def positive_loop_step[OF good_no_accept[OF gp']]
        del: positive_loop.simps(2))
  have sq: "positive_loop (rev xs) ([], [], [q]) = positive_loop rest ([], [l0], A')"
    using ntq by (simp add: ls A'_def positive_loop_step[OF good_no_accept[OF gq]]
        del: positive_loop.simps(2))
  note negx = neg[folded xs_def]
  have "get_domain q n h = get_domain p n h"
  proof (cases rest)
    case Nil
    have lp: "positive_loop (rev (split_on CHR ''.'' h)) ([], [], [p]) = Inr ([], A)"
      using sp Nil by (simp add: xs_def)
    have lq: "positive_loop (rev (split_on CHR ''.'' h)) ([], [], [q]) = Inr ([], A')"
      using sq Nil by (simp add: xs_def)
    have len: "length (split_on CHR ''.'' h) < 2"
      using ls Nil by (metis length_Cons length_rev list.size(3) one_less_numeral_iff
          semiring_norm(76) One_nat_def xs_def)
    have "get_domain p n h = Inr None"
      using get_domain_positive[OF neg lp is_tld_ok[OF good_no_accept[OF gA]]] len by simp
    moreover have "get_domain q n h = Inr None"
      using get_domain_positive[OF neg lq is_tld_ok[OF good_no_accept[OF gA']]] len by simp
    ultimately show ?thesis by simp
  next
    case (Cons l1 rest')
    from rb Cons have l1: "l1 \<noteq> accept_this" and rb': "accept_this \<notin> set rest'" by auto
    define B where "B = advance l1 A"
    have BB: "advance l1 A' = B"
      by (simp add: AA' B_def advance_without_accept_this_dict[OF l1])
    have gB: "good B" using gA l1 by (simp add: B_def good_advance)
    define W where "W = walk B rest'"
    have gW: "good W" unfolding W_def using gB rb' by (rule good_walk)
    define lgU where "lgU = (if \<exists>r \<in> set A. terminal r then [l0, l1] else [])"
    define lgP where "lgP = (if \<exists>r \<in> set A'. terminal r then [l0, l1] else [])"
    have sp2: "positive_loop (rev xs) ([], [], [p]) = positive_loop rest' (lgU, [l0, l1], B)"
      by (simp add: sp Cons B_def lgU_def positive_loop_step[OF good_no_accept[OF gA]]
          del: positive_loop.simps(2))
    have sq2: "positive_loop (rev xs) ([], [], [q]) = positive_loop rest' (lgP, [l0, l1], B)"
      by (simp add: sq Cons BB[symmetric] lgP_def positive_loop_step[OF good_no_accept[OF gA']]
          del: positive_loop.simps(2))
    have two: "\<not> length (split_on CHR ''.'' h) < 2"
      using ls Cons by (metis length_Cons length_rev not_less_eq numeral_2_eq_2
          less_Suc0 list.size(3) xs_def not_less0)
    have idx: "rev (split_on CHR ''.'' h) ! 1 = l1" "rev (split_on CHR ''.'' h) ! 0 = l0"
      using ls Cons by (simp_all add: xs_def)
    obtain b where tld: "is_tld W = Inr b" using is_tld_ok[OF good_no_accept[OF gW]] by blast
    from positive_loop_longest_dependence[OF gB rb', of "[l0, l1]"]
    show ?thesis
    proof
      assume "\<exists>c. \<forall>lg. positive_loop rest' (lg, [l0, l1], B) = Inr (c, walk B rest')"
      then obtain c where c: "\<And>lg. positive_loop rest' (lg, [l0, l1], B) = Inr (c, W)"
        by (auto simp: W_def)
      have lp: "positive_loop (rev (split_on CHR ''.'' h)) ([], [], [p]) = Inr (c, W)"
        using sp2 c by (simp add: xs_def)
      have lq: "positive_loop (rev (split_on CHR ''.'' h)) ([], [], [q]) = Inr (c, W)"
        using sq2 c by (simp add: xs_def)
      show ?thesis
        by (simp only: get_domain_positive[OF neg lp tld] get_domain_positive[OF neg lq tld])
    next
      assume "\<forall>lg. positive_loop rest' (lg, [l0, l1], B) = Inr (lg, walk B rest')"
      then have i: "\<And>lg. positive_loop rest' (lg, [l0, l1], B) = Inr (lg, W)"
        by (auto simp: W_def)
      have lp: "positive_loop (rev (split_on CHR ''.'' h)) ([], [], [p]) = Inr (lgU, W)"
        using sp2 i by (simp add: xs_def)
      have lq: "positive_loop (rev (split_on CHR ''.'' h)) ([], [], [q]) = Inr (lgP, W)"
        using sq2 i by (simp add: xs_def)
      have vU: "get_domain p n h = (if b then Inr None else Inr (Some (l1 @ ''.'' @ l0)))"
        using get_domain_positive[OF neg lp tld] two idx by (simp add: lgU_def)
      have vP: "get_domain q n h = (if b then Inr None else Inr (Some (l1 @ ''.'' @ l0)))"
        using get_domain_positive[OF neg lq tld] two idx by (simp add: lgP_def)
      from vU vP show ?thesis by simp
    qed
  qed
  then show ?thesis by (simp add: p_def q_def)
qed


text \<open>
  C5, amended: for every rule set whose rules have at least one label and no
  label \<^verbatim>\<open>"!"\<close>, every negative trie and every hostname with no label \<^verbatim>\<open>"!"\<close>,
  resolving against the pruned positive trie yields exactly the same result as
  resolving against the unpruned positive trie.
\<close>

theorem pruning_preserves_resolution:
  assumes "rules_to_tree pos = Inr tp" and "\<forall>r \<in> set pos. r \<noteq> [] \<and> accept_this \<notin> set r"
    and "accept_this \<notin> set (split_on CHR ''.'' h)"
  shows "get_domain (Rule_subrule (filter_top_rules tp)) n h = get_domain (Rule_subrule tp) n h"
proof (cases "negative_loop (rev (split_on CHR ''.'' h)) ([], [], [n])")
  case (Inl e)
  then show ?thesis by (simp only: get_domain_negative_trap[OF Inl])
next
  case (Inr res)
  show ?thesis
  proof (cases res)
    case None
    with Inr have "negative_loop (rev (split_on CHR ''.'' h)) ([], [], [n]) = Inr None" by simp
    then show ?thesis by (simp only: get_domain_empty_label)
  next
    case (Some nlg)
    with Inr have nl: "negative_loop (rev (split_on CHR ''.'' h)) ([], [], [n]) = Inr (Some nlg)"
      by simp
    show ?thesis
    proof (cases "nlg = []")
      case False
      show ?thesis by (simp only: get_domain_exception[OF nl False])
    next
      case True
      from rules_to_tree_inv[OF assms(1)] have "good [Rule_subrule tp]" "distinct (map fst tp)"
        by (simp_all add: good_def)
      moreover have "map_of tp accept_this = None"
        using rules_to_tree_has_rule(1)[OF assms(1,2)] .
      ultimately show ?thesis
        using pruned_positive_part[OF _ _ _ assms(3)] nl True by blast
    qed
  qed
qed

text \<open>
  C5, as stated, holds for every rule set and every hostname. With the rule
  \<^verbatim>\<open>com\<close> the hostname \<^verbatim>\<open>!.com\<close> resolves to \<^verbatim>\<open>!.com\<close> on the pruned trie and
  stops in the assertion on the unpruned one; with the rule line \<^verbatim>\<open>.!\<close> the
  hostname \<^verbatim>\<open>a.b\<close> resolves to \<^verbatim>\<open>a.b\<close> on the pruned trie and to \<^verbatim>\<open>b\<close> on the
  unpruned one.
\<close>

theorem pruning_changes_result_counterexample:
  "rules_to_tree [[''com'']] = Inr [(''com'', accept_this_dict)] \<and>
   get_domain (Rule_subrule (filter_top_rules [(''com'', accept_this_dict)])) (Rule_subrule [])
     ''!.com'' = Inr (Some ''!.com'') \<and>
   get_domain (Rule_subrule [(''com'', accept_this_dict)]) (Rule_subrule [])
     ''!.com'' = Inl AssertFalse \<and>
   get_public_suffixes [''.!''] = ([[accept_this]], []) \<and>
   rules_to_tree [[accept_this]] = Inr [(accept_this, accept_this_dict)] \<and>
   get_domain (Rule_subrule (filter_top_rules [(accept_this, accept_this_dict)])) (Rule_subrule [])
     ''a.b'' = Inr (Some ''a.b'') \<and>
   get_domain (Rule_subrule [(accept_this, accept_this_dict)]) (Rule_subrule [])
     ''a.b'' = Inr (Some ''b'')"
  by (simp add: eval_defs)

text \<open>
  C5, amended, at the rules \<^verbatim>\<open>com\<close> and \<^verbatim>\<open>co.uk\<close>, the negative trie of
  \<^verbatim>\<open>!www.ck\<close> and the hostname \<^verbatim>\<open>www.example.com\<close>.
\<close>

theorem pruning_preserves_resolution_witness:
  "rules_to_tree [[''com''], [''co'', ''uk'']] =
     Inr [(''com'', accept_this_dict), (''uk'', Rule_subrule [(''co'', accept_this_dict)])] \<and>
   accept_this \<notin> set (split_on CHR ''.'' ''www.example.com'') \<and>
   get_domain (Rule_subrule [(''com'', accept_this_dict), (''uk'', Rule_subrule [(''co'', accept_this_dict)])])
     (Rule_subrule [(''ck'', Rule_subrule [(''www'', accept_this_dict)])]) ''www.example.com''
     = Inr (Some ''example.com'') \<and>
   get_domain (Rule_subrule (filter_top_rules
        [(''com'', accept_this_dict), (''uk'', Rule_subrule [(''co'', accept_this_dict)])]))
     (Rule_subrule [(''ck'', Rule_subrule [(''www'', accept_this_dict)])]) ''www.example.com''
     = Inr (Some ''example.com'')"
proof -
  have t: "rules_to_tree [[''com''], [''co'', ''uk'']] =
     Inr [(''com'', accept_this_dict), (''uk'', Rule_subrule [(''co'', accept_this_dict)])]"
    by (simp add: rules_to_tree_def accept_this_dict_def)
  have rules: "\<forall>r \<in> set [[''com''], [''co'', ''uk'']]. r \<noteq> [] \<and> accept_this \<notin> set r" by simp
  have a: "accept_this \<notin> set (split_on CHR ''.'' ''www.example.com'')" by simp
  have u: "get_domain (Rule_subrule [(''com'', accept_this_dict), (''uk'', Rule_subrule [(''co'', accept_this_dict)])])
     (Rule_subrule [(''ck'', Rule_subrule [(''www'', accept_this_dict)])]) ''www.example.com''
     = Inr (Some ''example.com'')"
    by (simp add: get_domain_def accept_this_dict_def)
  from pruning_preserves_resolution[OF t rules a,
      of "Rule_subrule [(''ck'', Rule_subrule [(''www'', accept_this_dict)])]"] t a u
  show ?thesis by simp
qed

end
